theory Spec2Isabelle
  imports Main "HOL-Library.AList" "HOL-Library.Product_Lexorder"
begin

section \<open>Transform links and the two pipelines\<close>

text \<open>
  A transform link is a pair of string functions (\<open>transform/types.ts\<close>). A link that
  throws is modelled by \<open>None\<close>.
\<close>

record StorageTransform =
  serialize :: "string \<Rightarrow> string option"
  deserialize :: "string \<Rightarrow> string option"

subsection \<open>TransformPipeline (transforms/pipeline.ts)\<close>

text \<open>
  \<open>apply\<close> is \<open>transforms.reduce\<close>, \<open>reverse\<close> is \<open>transforms.reduceRight\<close>. The callback
  rethrows any failure of a link as one pipeline error, so the whole fold yields \<open>None\<close>
  as soon as one link does. The logger only observes.
\<close>

definition pipeline_step ::
  "(StorageTransform \<Rightarrow> string \<Rightarrow> string option) \<Rightarrow> string option \<Rightarrow> StorageTransform \<Rightarrow> string option" where
  "pipeline_step dir current transform =
     (case current of None \<Rightarrow> None | Some c \<Rightarrow> dir transform c)"

definition pipeline_apply :: "StorageTransform list \<Rightarrow> string \<Rightarrow> string option" where
  "pipeline_apply transforms data = foldl (pipeline_step serialize) (Some data) transforms"

definition pipeline_reverse :: "StorageTransform list \<Rightarrow> string \<Rightarrow> string option" where
  "pipeline_reverse transforms data =
     foldr (\<lambda>transform current. pipeline_step deserialize current transform) transforms (Some data)"

definition pipeline_hasTransforms :: "StorageTransform list \<Rightarrow> bool" where
  "pipeline_hasTransforms transforms = (length transforms > 0)"

subsection \<open>TransformHandler and TransformChain (transform/transform-chain.ts)\<close>

text \<open>
  Handlers are objects with mutable neighbour pointers, so they live in a store: an
  address is a natural number, \<open>node\<close> maps an address to the object there and \<open>brk\<close> is
  the next unused address. \<open>process\<close> and \<open>reverseProcess\<close> are the two abstract methods
  of the subclass.
\<close>

record TransformHandler =
  process :: "string \<Rightarrow> string option"
  reverseProcess :: "string \<Rightarrow> string option"
  nextHandler :: "nat option"
  prevHandler :: "nat option"

record handler_store =
  node :: "nat \<Rightarrow> TransformHandler"
  brk :: nat

text \<open>\<open>a.setNext(b)\<close>: first \<open>a.nextHandler = b\<close>, then \<open>b.prevHandler = a\<close>.\<close>

definition setNext :: "handler_store \<Rightarrow> nat \<Rightarrow> nat \<Rightarrow> handler_store" where
  "setNext H a b =
     (let H1 = H\<lparr>node := (node H)(a := (node H a)\<lparr>nextHandler := Some b\<rparr>)\<rparr>
      in H1\<lparr>node := (node H1)(b := (node H1 b)\<lparr>prevHandler := Some a\<rparr>)\<rparr>)"

text \<open>
  The result of running a chain: it returns a string, a handler throws, or the
  recursion needs more frames than the call stack of the host has left, and the host
  throws a \<open>RangeError\<close>.
\<close>

datatype run = Done string | Threw | StackOverflow

text \<open>
  \<open>serialize\<close> and \<open>deserialize\<close> of a handler: transform, then delegate to the
  next (previous) handler if there is one. Each call takes one frame of the \<open>stack\<close>
  frames the host has left.
\<close>

fun serialize_node :: "nat \<Rightarrow> handler_store \<Rightarrow> nat \<Rightarrow> string \<Rightarrow> run" where
  "serialize_node 0 H a data = StackOverflow"
| "serialize_node (Suc stack) H a data =
     (case process (node H a) data of
        None \<Rightarrow> Threw
      | Some result \<Rightarrow>
          (case nextHandler (node H a) of
             Some b \<Rightarrow> serialize_node stack H b result
           | None \<Rightarrow> Done result))"

fun deserialize_node :: "nat \<Rightarrow> handler_store \<Rightarrow> nat \<Rightarrow> string \<Rightarrow> run" where
  "deserialize_node 0 H a data = StackOverflow"
| "deserialize_node (Suc stack) H a data =
     (case reverseProcess (node H a) data of
        None \<Rightarrow> Threw
      | Some result \<Rightarrow>
          (case prevHandler (node H a) of
             Some b \<Rightarrow> deserialize_node stack H b result
           | None \<Rightarrow> Done result))"

text \<open>
  An element of the array given to \<open>TransformChain.from\<close>: a handler instance (its
  address) or a plain transform object, which \<open>from\<close> wraps in a new
  \<open>InlineTransformHandler\<close>.
\<close>

datatype link = Handler nat | Plain StorageTransform

definition InlineTransformHandler :: "StorageTransform \<Rightarrow> TransformHandler" where
  "InlineTransformHandler t =
     \<lparr>process = serialize t, reverseProcess = deserialize t,
      nextHandler = None, prevHandler = None\<rparr>"

definition alloc_handler :: "handler_store \<Rightarrow> TransformHandler \<Rightarrow> nat \<times> handler_store" where
  "alloc_handler H h = (brk H, H\<lparr>node := (node H)(brk H := h), brk := Suc (brk H)\<rparr>)"

fun normalize :: "handler_store \<Rightarrow> link list \<Rightarrow> nat list \<times> handler_store" where
  "normalize H [] = ([], H)"
| "normalize H (Handler a # hs) =
     (case normalize H hs of (nodes, H') \<Rightarrow> (a # nodes, H'))"
| "normalize H (Plain t # hs) =
     (case alloc_handler H (InlineTransformHandler t) of
        (a, H1) \<Rightarrow> (case normalize H1 hs of (nodes, H') \<Rightarrow> (a # nodes, H')))"

text \<open>The linking loop: \<open>nodes[i].setNext(nodes[i + 1])\<close> for \<open>i\<close> from 0.\<close>

fun link_all :: "handler_store \<Rightarrow> nat list \<Rightarrow> handler_store" where
  "link_all H (a # b # rest) = link_all (setNext H a b) (b # rest)"
| "link_all H [a] = H"
| "link_all H [] = H"

record TransformChain =
  head :: "nat option"
  tail :: "nat option"

definition chain_from :: "handler_store \<Rightarrow> link list \<Rightarrow> TransformChain \<times> handler_store" where
  "chain_from H handlers =
     (if length handlers = 0 then (\<lparr>head = None, tail = None\<rparr>, H)
      else (case normalize H handlers of
              (nodes, H1) \<Rightarrow>
                (\<lparr>head = Some (hd nodes), tail = Some (last nodes)\<rparr>, link_all H1 nodes)))"

definition chain_apply :: "nat \<Rightarrow> handler_store \<Rightarrow> TransformChain \<Rightarrow> string \<Rightarrow> run" where
  "chain_apply stack H c data =
     (case head c of None \<Rightarrow> Done data | Some a \<Rightarrow> serialize_node stack H a data)"

definition chain_reverse :: "nat \<Rightarrow> handler_store \<Rightarrow> TransformChain \<Rightarrow> string \<Rightarrow> run" where
  "chain_reverse stack H c data =
     (case tail c of None \<Rightarrow> Done data | Some a \<Rightarrow> deserialize_node stack H a data)"

definition chain_hasTransforms :: "TransformChain \<Rightarrow> bool" where
  "chain_hasTransforms c = (head c \<noteq> None)"

text \<open>
  The two functions a chain element contributes: those of the handler instance at its
  address, or those of the plain object.
\<close>

definition as_transform :: "handler_store \<Rightarrow> nat \<Rightarrow> StorageTransform" where
  "as_transform H c = \<lparr>serialize = process (node H c), deserialize = reverseProcess (node H c)\<rparr>"

fun link_transform :: "handler_store \<Rightarrow> link \<Rightarrow> StorageTransform" where
  "link_transform H (Handler a) = as_transform H a"
| "link_transform H (Plain t) = t"

text \<open>The handler object a chain element stands for, before \<open>from\<close> links it.\<close>

fun link_node :: "handler_store \<Rightarrow> link \<Rightarrow> TransformHandler" where
  "link_node H (Handler a) = node H a"
| "link_node H (Plain t) = InlineTransformHandler t"

fun handler_addrs :: "link list \<Rightarrow> nat list" where
  "handler_addrs [] = []"
| "handler_addrs (Handler a # hs) = a # handler_addrs hs"
| "handler_addrs (Plain t # hs) = handler_addrs hs"

text \<open>A link is well behaved when its backward function undoes its forward function.\<close>

definition inverts :: "(string \<Rightarrow> string option) \<Rightarrow> (string \<Rightarrow> string option) \<Rightarrow> bool" where
  "inverts bwd fwd = (\<forall>x. \<exists>y. fwd x = Some y \<and> bwd y = Some x)"

section \<open>Helpers (vault/helpers.ts, vault/constants.ts)\<close>

text \<open>
  The errors the vault throws to its caller, one constructor per message, and what the
  \<open>try\<close> block of a save can catch, as \<open>handleSaveError\<close> tells the errors apart: one
  that \<open>isQuotaExceededError\<close> accepts (the quota \<open>DOMException\<close> of the host store),
  one that \<open>isCircularReferenceError\<close> accepts (a \<open>TypeError\<close> whose message contains
  \<open>circular\<close>), or any other.
\<close>

datatype error =
    StorageUnavailable
  | EmptyKey
  | DangerousKey
  | InvalidTTL
  | InvalidAdditionalTTL
  | QuotaExceeded
  | QuotaExceededDuringCleanup
  | CircularReference
  | SaveFailed
  | ClearFailed

datatype thrown = DOMQuotaExceeded | TypeErrorCircular | OtherThrown

definition DANGEROUS_KEYS :: "string list" where
  "DANGEROUS_KEYS = [''__proto__'', ''constructor'', ''prototype'']"

text \<open>
  \<open>key.trim() === ''\<close>: every character is white space. A \<open>char\<close> stands for the code
  unit with the same number, so the strings of this theory are the strings of code units
  below 256. Of those, \<open>trim\<close> strips tab, line feed, vertical tab, form feed, carriage
  return, space and the no-break space U+00A0; the white space above U+00FF (U+FEFF,
  U+2028 and others) has no \<open>char\<close>.
\<close>

definition js_whitespace :: "char \<Rightarrow> bool" where
  "js_whitespace c =
     (c \<in> set [CHR 0x09, CHR 0x0A, CHR 0x0B, CHR 0x0C, CHR 0x0D, CHR 0x20, CHR 0xA0])"

definition trim_is_empty :: "string \<Rightarrow> bool" where
  "trim_is_empty key = list_all js_whitespace key"

text \<open>\<open>validateKey(key, storage)\<close>: \<open>None\<close> when it returns, the error when it throws.\<close>

definition validateKey :: "string \<Rightarrow> 'b option \<Rightarrow> error option" where
  "validateKey key raw =
     (if raw = None then Some StorageUnavailable
      else if key = [] \<or> trim_is_empty key then Some EmptyKey
      else if key \<in> set DANGEROUS_KEYS then Some DangerousKey
      else None)"

text \<open>Times are milliseconds as integers; \<open>now\<close> is the value of \<open>Date.now()\<close>.\<close>

definition isExpired :: "int \<Rightarrow> int option \<Rightarrow> bool" where
  "isExpired now e = (case e of None \<Rightarrow> False | Some t \<Rightarrow> now > t)"

text \<open>
  A number as the checks of \<open>setItem\<close> and \<open>extendTTL\<close> see it and as \<open>getRemainingTTL\<close>
  can return it: a finite value or one of the three values \<open>Number.isFinite\<close> rejects.
\<close>

datatype number = Finite int | PosInfinity | NegInfinity | NaN

fun isFinite :: "number \<Rightarrow> bool" where
  "isFinite (Finite t) = True"
| "isFinite _ = False"

fun less_than_zero :: "number \<Rightarrow> bool" where
  "less_than_zero (Finite t) = (t < 0)"
| "less_than_zero NegInfinity = True"
| "less_than_zero _ = False"

fun at_most_zero :: "number \<Rightarrow> bool" where
  "at_most_zero (Finite t) = (t \<le> 0)"
| "at_most_zero NegInfinity = True"
| "at_most_zero _ = False"

text \<open>
  Arithmetic on a property that may be missing: \<open>None\<close> is \<open>undefined\<close>, which \<open>+\<close>, \<open>-\<close>
  and \<open>>\<close> convert to \<open>NaN\<close>. \<open>js_plus e d\<close> is \<open>e + d\<close>, \<open>js_minus e t\<close> is \<open>e - t\<close> and
  \<open>js_greater t e\<close> is \<open>t > e\<close>, for finite \<open>d\<close> and \<open>t\<close>.
\<close>

fun js_plus :: "number option \<Rightarrow> int \<Rightarrow> number" where
  "js_plus (Some (Finite e)) d = Finite (e + d)"
| "js_plus (Some PosInfinity) d = PosInfinity"
| "js_plus (Some NegInfinity) d = NegInfinity"
| "js_plus (Some NaN) d = NaN"
| "js_plus None d = NaN"

fun js_minus :: "number option \<Rightarrow> int \<Rightarrow> number" where
  "js_minus (Some (Finite e)) t = Finite (e - t)"
| "js_minus (Some PosInfinity) t = PosInfinity"
| "js_minus (Some NegInfinity) t = NegInfinity"
| "js_minus (Some NaN) t = NaN"
| "js_minus None t = NaN"

fun js_greater :: "int \<Rightarrow> number option \<Rightarrow> bool" where
  "js_greater t (Some (Finite e)) = (t > e)"
| "js_greater t (Some NegInfinity) = True"
| "js_greater t _ = False"

section \<open>The record set (vault/types.ts)\<close>

text \<open>
  \<open>StoredData\<close> is \<open>{ value, expiry }\<close> with a number or \<open>null\<close> as expiry. A \<open>DataRecord\<close>
  is an object used as a dictionary; the list holds its own properties in enumeration
  order, each key once. \<open>data[key] = x\<close> is \<open>AList.update\<close> (in place, or appended),
  \<open>delete data[key]\<close> is \<open>AList.delete\<close> and \<open>Object.keys(data)\<close> is \<open>map fst\<close>. The numeric
  reordering of integer-like keys is outside this model.
\<close>

record 'v StoredData =
  stored_value :: 'v
  expiry :: "int option"

type_synonym 'v DataRecord = "(string \<times> 'v StoredData) list"

text \<open>
  Every record set is a plain object, so \<open>data[key]\<close> and \<open>key in data\<close> also find the
  members of \<open>Object.prototype\<close> where \<open>data\<close> has no own property \<open>key\<close>. Such a member is
  an object of the host (a function, or \<open>Object.prototype\<close> itself for \<open>__proto__\<close>), shared
  by all record sets; the engine reads its properties \<open>value\<close> and \<open>expiry\<close>, and
  \<open>updateItem\<close> and \<open>extendTTL\<close> write them. \<open>None\<close> is a property that is missing
  (\<open>undefined\<close>). The members are taken to be objects (truthy) and writable data
  properties, as the standard ones are; each has its own \<open>value\<close> and \<open>expiry\<close>.
\<close>

record 'v member =
  member_value :: "'v option"
  member_expiry :: "number option"

type_synonym 'v prototype = "string \<Rightarrow> 'v member option"

text \<open>
  The members of \<open>Object.prototype\<close> in a host that nothing has added to, none of them
  with a \<open>value\<close> or an \<open>expiry\<close>.
\<close>

definition OBJECT_PROTOTYPE_KEYS :: "string list" where
  "OBJECT_PROTOTYPE_KEYS =
     [''constructor'', ''__defineGetter__'', ''__defineSetter__'', ''hasOwnProperty'',
      ''__lookupGetter__'', ''__lookupSetter__'', ''isPrototypeOf'', ''propertyIsEnumerable'',
      ''toString'', ''valueOf'', ''__proto__'', ''toLocaleString'']"

definition standard_prototype :: "'v prototype" where
  "standard_prototype key =
     (if key \<in> set OBJECT_PROTOTYPE_KEYS then Some \<lparr>member_value = None, member_expiry = None\<rparr>
      else None)"

text \<open>
  What \<open>data[key]\<close> evaluates to: an own property, an inherited member, or \<open>undefined\<close>.
  \<open>key in data\<close> is true in the first two cases.
\<close>

datatype 'v property = Own "'v StoredData" | Inherited "'v member" | Missing

definition js_get :: "'v prototype \<Rightarrow> 'v DataRecord \<Rightarrow> string \<Rightarrow> 'v property" where
  "js_get proto data key =
     (case map_of data key of
        Some item \<Rightarrow> Own item
      | None \<Rightarrow> (case proto key of Some m \<Rightarrow> Inherited m | None \<Rightarrow> Missing))"

definition js_in :: "'v prototype \<Rightarrow> 'v DataRecord \<Rightarrow> string \<Rightarrow> bool" where
  "js_in proto data key = (map_of data key \<noteq> None \<or> proto key \<noteq> None)"

text \<open>
  What \<open>getItem\<close> returns: \<open>null\<close>, the \<open>value\<close> of an item, or \<open>undefined\<close> where the
  object found has no property \<open>value\<close>.
\<close>

datatype 'v returned = Null | Undefined | Value 'v

text \<open>
  What \<open>JSON.parse\<close> can return, as far as \<open>isValidDataRecord\<close> tells the values
  apart: a plain object, an array, \<open>null\<close> or a primitive. \<open>isValidDataRecord\<close> does not look
  at the properties of the object, and the engine reads it as the \<open>DataRecord\<close> its type
  assertion says it is; \<open>PObject\<close> carries that record set. A text whose object has
  properties that are not of the shape \<open>{ value, expiry }\<close> is outside this model.
\<close>

datatype 'v parsed = PObject "'v DataRecord" | PArray | PNull | PPrimitive

fun isValidDataRecord :: "'v parsed \<Rightarrow> bool" where
  "isValidDataRecord (PObject d) = True"
| "isValidDataRecord _ = False"

section \<open>The storage adapter (storage/*.ts)\<close>

text \<open>
  The adapters are \<open>core/storage-backend.ts\<close>, \<open>storage/local-storage.ts\<close> and
  \<open>storage/in-memory-storage.ts\<close>. What \<open>getStorage()\<close> holds is a web \<open>Storage\<close> object
  or a \<open>Map\<close>; the adapter whose field is \<open>null\<close> is \<open>None\<close>. The host decides when \<open>setItem\<close> of the web store throws its
  quota error: \<open>quota_exceeded\<close> is that decision as a function of the number of earlier
  write attempts and of the value. \<open>written\<close> is the log of the writes that went through;
  \<open>remove_throws\<close> says whether \<open>removeItem\<close> of the web store throws. A \<open>Map\<close> never
  throws.
\<close>

datatype medium = WebStorage | MapStorage

record backend =
  medium :: medium
  entries :: "string \<Rightarrow> string option"
  quota_exceeded :: "nat \<Rightarrow> string \<Rightarrow> bool"
  attempts :: nat
  written :: "(string \<times> string) list"
  remove_throws :: bool

definition isAvailable :: "backend option \<Rightarrow> bool" where
  "isAvailable st = (st \<noteq> None)"

definition storage_read :: "backend option \<Rightarrow> string \<Rightarrow> string option" where
  "storage_read st key = (case st of None \<Rightarrow> None | Some b \<Rightarrow> entries b key)"

definition storage_write :: "backend option \<Rightarrow> string \<Rightarrow> string \<Rightarrow> thrown option \<times> backend option" where
  "storage_write st key v =
     (case st of
        None \<Rightarrow> (None, None)
      | Some b \<Rightarrow>
          if medium b = WebStorage \<and> quota_exceeded b (attempts b) v
          then (Some DOMQuotaExceeded, Some (b\<lparr>attempts := Suc (attempts b)\<rparr>))
          else (None, Some (b\<lparr>entries := (entries b)(key \<mapsto> v),
                                attempts := Suc (attempts b),
                                written := written b @ [(key, v)]\<rparr>)))"

definition storage_remove :: "backend option \<Rightarrow> string \<Rightarrow> thrown option \<times> backend option" where
  "storage_remove st key =
     (case st of
        None \<Rightarrow> (None, None)
      | Some b \<Rightarrow>
          if medium b = WebStorage \<and> remove_throws b then (Some OtherThrown, Some b)
          else (None, Some (b\<lparr>entries := (entries b)(key := None)\<rparr>)))"

section \<open>The vault engine (vault/storage-vault.ts)\<close>

text \<open>
  The options fixed at construction. The transform chain is a collaborator: the engine
  only calls its \<open>apply\<close> and \<open>reverse\<close>, which return a string or throw. \<open>JSON.stringify\<close>
  and \<open>JSON.parse\<close> belong to the host, so they are parameters too. Inside the \<open>try\<close> of a
  save the kind of the error matters, so \<open>json_stringify\<close> and \<open>transform_apply\<close> return
  the kind of what they throw (\<open>Inl\<close>) or their result (\<open>Inr\<close>): \<open>JSON.stringify\<close> throws a
  \<open>TypeError\<close> on a circular value or a \<open>BigInt\<close> and whatever a \<open>toJSON\<close> method throws.
  The reads end in a \<open>catch\<close> that takes every error alike: \<open>transform_reverse\<close> and
  \<open>json_parse\<close> are \<open>None\<close> when they throw.
\<close>

record 'v config =
  storageKey :: string
  maxSizeBytes :: nat
  maxItemsInMemory :: nat
  debounceMs :: int
  transform_apply :: "string \<Rightarrow> thrown + string"
  transform_reverse :: "string \<Rightarrow> string option"
  json_stringify :: "'v DataRecord \<Rightarrow> thrown + string"
  json_parse :: "string \<Rightarrow> 'v parsed option"

text \<open>
  The mutable fields of the instance, and what it reads and changes in the host: the
  timers it has set (\<open>timers\<close> are the handles that can still fire, \<open>next_timer\<close> is the
  handle the next \<open>setTimeout\<close> returns) and the members of \<open>Object.prototype\<close>.
\<close>

record 'v vault =
  storage :: "backend option"
  isCleaningUp :: bool
  pendingSave :: "nat option"
  dirtyData :: "'v DataRecord option"
  timers :: "nat list"
  next_timer :: nat
  object_prototype :: "'v prototype"

definition setTimeout :: "'v vault \<Rightarrow> nat \<times> 'v vault" where
  "setTimeout s = (next_timer s, s\<lparr>timers := timers s @ [next_timer s], next_timer := Suc (next_timer s)\<rparr>)"

definition clearTimeout :: "nat \<Rightarrow> 'v vault \<Rightarrow> 'v vault" where
  "clearTimeout t s = s\<lparr>timers := removeAll t (timers s)\<rparr>"

text \<open>
  \<open>getAllData\<close>. The spread of the dirty buffer is a new object with the same
  properties; as a value that is the buffer itself (the objects and their addresses
  are the subject of the last section). Any failure of the three decoding steps ends in
  the \<open>catch\<close>: remove the entry, ignoring a failure of the removal, and return \<open>{}\<close>.
\<close>

definition decode :: "'v config \<Rightarrow> string \<Rightarrow> 'v DataRecord option" where
  "decode cfg dataStr =
     (case transform_reverse cfg dataStr of
        None \<Rightarrow> None
      | Some deserializedStr \<Rightarrow>
          (case json_parse cfg deserializedStr of
             None \<Rightarrow> None
           | Some p \<Rightarrow> (case p of PObject d \<Rightarrow> Some d | _ \<Rightarrow> None)))"

definition getAllData :: "'v config \<Rightarrow> 'v vault \<Rightarrow> 'v DataRecord \<times> 'v vault" where
  "getAllData cfg s =
     (if storage s = None then ([], s)
      else case dirtyData s of
        Some d \<Rightarrow> (d, s)
      | None \<Rightarrow>
          (case storage_read (storage s) (storageKey cfg) of
             None \<Rightarrow> ([], s)
           | Some dataStr \<Rightarrow>
               if dataStr = [] then ([], s)
               else (case decode cfg dataStr of
                       Some d \<Rightarrow> (d, s)
                     | None \<Rightarrow> ([], s\<lparr>storage := snd (storage_remove (storage s) (storageKey cfg))\<rparr>))))"

text \<open>
  The body of the \<open>try\<close> of a save: stringify, transform, write. The size check
  against \<open>maxSizeBytes\<close> has an empty body in the source.
\<close>

definition serialize_and_write :: "'v config \<Rightarrow> 'v DataRecord \<Rightarrow> 'v vault \<Rightarrow> thrown option \<times> 'v vault" where
  "serialize_and_write cfg data s =
     (case json_stringify cfg data of
        Inl t \<Rightarrow> (Some t, s)
      | Inr dataStr \<Rightarrow>
          (case transform_apply cfg dataStr of
             Inl t \<Rightarrow> (Some t, s)
           | Inr transformedStr \<Rightarrow>
               (case storage_write (storage s) (storageKey cfg) transformedStr of
                  (r, st) \<Rightarrow> (r, s\<lparr>storage := st\<rparr>))))"

text \<open>
  \<open>enforceItemLimit\<close>. The comparator \<open>expiryA - expiryB\<close> with \<open>?? Infinity\<close> orders the
  keys by expiry with the items that never expire last and equal to each other;
  \<open>Array.prototype.sort\<close> is stable. \<open>expiry_rank\<close> is that order as a pair.
\<close>

definition expiry_rank :: "'v DataRecord \<Rightarrow> string \<Rightarrow> bool \<times> int" where
  "expiry_rank data k =
     (case map_of data k of
        None \<Rightarrow> (True, 0)
      | Some item \<Rightarrow> (case expiry item of None \<Rightarrow> (True, 0) | Some e \<Rightarrow> (False, e)))"

definition enforceItemLimit :: "'v config \<Rightarrow> 'v DataRecord \<Rightarrow> 'v DataRecord" where
  "enforceItemLimit cfg data =
     (let keys = map fst data in
      if length keys \<le> maxItemsInMemory cfg then data
      else
        let sortedKeys = sort_key (expiry_rank data) keys;
            itemsToRemove = length keys - maxItemsInMemory cfg
        in foldl (\<lambda>d keyToDelete. AList.delete keyToDelete d) data (take itemsToRemove sortedKeys))"

text \<open>
  The guard of \<open>saveAllDataImmediate\<close> around \<open>enforceItemLimit\<close>: only for a \<open>Map\<close>, and
  only when the item count exceeds the maximum.
\<close>

definition limit_items :: "'v config \<Rightarrow> backend \<Rightarrow> 'v DataRecord \<Rightarrow> 'v DataRecord" where
  "limit_items cfg b data =
     (if medium b = MapStorage \<and> length (map fst data) > maxItemsInMemory cfg
      then enforceItemLimit cfg data else data)"

text \<open>The loop of \<open>cleanupExpiredItems\<close> over the keys of \<open>data\<close>.\<close>

fun cleanup_loop :: "int \<Rightarrow> string list \<Rightarrow> 'v DataRecord \<Rightarrow> nat \<Rightarrow> 'v DataRecord \<times> nat" where
  "cleanup_loop now [] data removedCount = (data, removedCount)"
| "cleanup_loop now (key # keys) data removedCount =
     (case map_of data key of
        None \<Rightarrow> cleanup_loop now keys data removedCount
      | Some item \<Rightarrow>
          (case expiry item of
             None \<Rightarrow> cleanup_loop now keys data removedCount
           | Some e \<Rightarrow>
               if now > e then cleanup_loop now keys (AList.delete key data) (Suc removedCount)
               else cleanup_loop now keys data removedCount))"

lemma getAllData_isCleaningUp [simp]: "isCleaningUp (snd (getAllData cfg s)) = isCleaningUp s"
  by (simp add: getAllData_def split: option.splits)

lemma serialize_and_write_isCleaningUp [simp]:
  "isCleaningUp (snd (serialize_and_write cfg data s)) = isCleaningUp s"
  by (simp add: serialize_and_write_def split: sum.splits prod.splits)

text \<open>
  \<open>saveAllDataImmediate\<close>, \<open>handleSaveError\<close> and \<open>cleanupExpiredItems\<close> call each other;
  the flag \<open>isCleaningUp\<close> bounds the recursion. Each returns the error it throws, if
  any, and the state it leaves. \<open>saveAllDataImmediate\<close> also returns \<open>data\<close> as
  \<open>enforceItemLimit\<close> left it, since that function deletes in place from the object it
  was given.
\<close>

function saveAllDataImmediate ::
    "'v config \<Rightarrow> int \<Rightarrow> 'v DataRecord \<Rightarrow> 'v vault \<Rightarrow> error option \<times> 'v DataRecord \<times> 'v vault"
  and handleSaveError :: "'v config \<Rightarrow> int \<Rightarrow> thrown \<Rightarrow> 'v vault \<Rightarrow> error option \<times> 'v vault"
  and cleanupExpiredItems :: "'v config \<Rightarrow> int \<Rightarrow> 'v vault \<Rightarrow> (error + nat) \<times> 'v vault"
where
  "saveAllDataImmediate cfg now data s =
     (case storage s of
        None \<Rightarrow> (None, data, s)
      | Some b \<Rightarrow>
          (let data' = limit_items cfg b data
           in case fst (serialize_and_write cfg data' s) of
                None \<Rightarrow> (None, data', snd (serialize_and_write cfg data' s))
              | Some e \<Rightarrow>
                  (case handleSaveError cfg now e (snd (serialize_and_write cfg data' s)) of
                     (r, s') \<Rightarrow> (r, data', s'))))"
| "handleSaveError cfg now e s =
     (case e of
        DOMQuotaExceeded \<Rightarrow>
          if \<not> isCleaningUp s then
            (case cleanupExpiredItems cfg now (s\<lparr>isCleaningUp := True\<rparr>) of
               (Inl err, s1) \<Rightarrow> (Some QuotaExceeded, s1\<lparr>isCleaningUp := False\<rparr>)
             | (Inr removedCount, s1) \<Rightarrow>
                 (case getAllData cfg s1 of
                    (freshData, s2) \<Rightarrow>
                      (case serialize_and_write cfg freshData s2 of
                         (None, s3) \<Rightarrow> (None, s3\<lparr>isCleaningUp := False\<rparr>)
                       | (Some t, s3) \<Rightarrow> (Some QuotaExceeded, s3\<lparr>isCleaningUp := False\<rparr>))))
          else (Some QuotaExceededDuringCleanup, s)
      | TypeErrorCircular \<Rightarrow> (Some CircularReference, s)
      | OtherThrown \<Rightarrow> (Some SaveFailed, s))"
| "cleanupExpiredItems cfg now s =
     (if \<not> isAvailable (storage s) then (Inr 0, s)
      else
        (case cleanup_loop now (map fst (fst (getAllData cfg s))) (fst (getAllData cfg s)) 0 of
           (data, removedCount) \<Rightarrow>
             if removedCount > 0 then
               (case saveAllDataImmediate cfg now data (snd (getAllData cfg s)) of
                  (None, d, s') \<Rightarrow> (Inr removedCount, s')
                | (Some err, d, s') \<Rightarrow> (Inl err, s'))
             else (Inr removedCount, snd (getAllData cfg s))))"
  by pat_completeness auto
termination
  by (relation "measure (\<lambda>x. case x of
            Inl (cfg, now, data, s) \<Rightarrow> (if isCleaningUp s then 0 else 3) + 2
          | Inr (Inl (cfg, now, e, s)) \<Rightarrow> (if isCleaningUp s then 0 else 3) + 1
          | Inr (Inr (cfg, now, s)) \<Rightarrow> (if isCleaningUp s then 0 else 3) + 3)") simp_all

declare saveAllDataImmediate.simps [simp del]
declare handleSaveError.simps [simp del]
declare cleanupExpiredItems.simps [simp del]

text \<open>
  \<open>saveAllData\<close>: with a positive debounce the record set becomes the dirty buffer,
  the pending timer is cleared and a new one is set; otherwise the write is immediate.
\<close>

definition saveAllData :: "'v config \<Rightarrow> int \<Rightarrow> 'v DataRecord \<Rightarrow> 'v vault \<Rightarrow> error option \<times> 'v vault" where
  "saveAllData cfg now data s =
     (if debounceMs cfg > 0 then
        (let s1 = s\<lparr>dirtyData := Some data\<rparr>;
             s2 = (case pendingSave s1 of Some t \<Rightarrow> clearTimeout t s1 | None \<Rightarrow> s1)
         in case setTimeout s2 of (t', s3) \<Rightarrow> (None, s3\<lparr>pendingSave := Some t'\<rparr>))
      else (case saveAllDataImmediate cfg now data s of (r, d, s') \<Rightarrow> (r, s')))"

text \<open>
  The callback the timer runs, and the host firing the timer with handle \<open>t\<close>: a
  handle that was cleared or has fired does nothing. When the save throws, the dirty
  buffer is kept (as \<open>enforceItemLimit\<close> left it).
\<close>

definition save_dirty :: "'v config \<Rightarrow> int \<Rightarrow> 'v vault \<Rightarrow> error option \<times> 'v vault" where
  "save_dirty cfg now s =
     (case dirtyData s of
        None \<Rightarrow> (None, s)
      | Some d \<Rightarrow>
          (case saveAllDataImmediate cfg now d s of
             (None, d', s') \<Rightarrow> (None, s'\<lparr>dirtyData := None\<rparr>)
           | (Some e, d', s') \<Rightarrow> (Some e, s'\<lparr>dirtyData := Some d'\<rparr>)))"

definition timer_callback :: "'v config \<Rightarrow> int \<Rightarrow> 'v vault \<Rightarrow> 'v vault" where
  "timer_callback cfg now s = (snd (save_dirty cfg now s))\<lparr>pendingSave := None\<rparr>"

definition fire_timer :: "'v config \<Rightarrow> int \<Rightarrow> nat \<Rightarrow> 'v vault \<Rightarrow> 'v vault" where
  "fire_timer cfg now t s =
     (if t \<in> set (timers s) then timer_callback cfg now (s\<lparr>timers := removeAll t (timers s)\<rparr>)
      else s)"

definition cancel_pending :: "'v vault \<Rightarrow> 'v vault" where
  "cancel_pending s =
     (case pendingSave s of Some t \<Rightarrow> (clearTimeout t s)\<lparr>pendingSave := None\<rparr> | None \<Rightarrow> s)"

definition flush :: "'v config \<Rightarrow> int \<Rightarrow> 'v vault \<Rightarrow> error option \<times> 'v vault" where
  "flush cfg now s = save_dirty cfg now (cancel_pending s)"

definition unload_handler :: "'v config \<Rightarrow> int \<Rightarrow> 'v vault \<Rightarrow> error option \<times> 'v vault" where
  "unload_handler cfg now s = save_dirty cfg now s"

text \<open>
  \<open>removeIfExpired(key, item, data)\<close> on what \<open>data[key]\<close> gave. On an inherited member
  \<open>isExpired\<close> compares with an \<open>expiry\<close> that is not \<open>null\<close>, and \<open>delete data[key]\<close> finds
  no own property to delete.
\<close>

definition removeIfExpired ::
  "int \<Rightarrow> string \<Rightarrow> 'v property \<Rightarrow> 'v DataRecord \<Rightarrow> bool \<times> 'v DataRecord" where
  "removeIfExpired now key item data =
     (case item of
        Missing \<Rightarrow> (True, data)
      | Own i \<Rightarrow> if isExpired now (expiry i) then (True, AList.delete key data) else (False, data)
      | Inherited m \<Rightarrow> (js_greater now (member_expiry m), data))"

text \<open>
  \<open>this.saveAllData(data); return r\<close>: the value \<open>r\<close> unless the save threw.
\<close>

definition returning :: "'a \<Rightarrow> error option \<times> 'v vault \<Rightarrow> (error + 'a) \<times> 'v vault" where
  "returning r res = (case res of (None, s) \<Rightarrow> (Inr r, s) | (Some e, s) \<Rightarrow> (Inl e, s))"

text \<open>\<open>item.value = v\<close> and \<open>item.expiry = e\<close> on the inherited member \<open>key\<close>.\<close>

definition set_member_value :: "string \<Rightarrow> 'v \<Rightarrow> 'v vault \<Rightarrow> 'v vault" where
  "set_member_value key v s =
     (case object_prototype s key of
        None \<Rightarrow> s
      | Some m \<Rightarrow> s\<lparr>object_prototype := (object_prototype s)(key \<mapsto> m\<lparr>member_value := Some v\<rparr>)\<rparr>)"

definition set_member_expiry :: "string \<Rightarrow> number \<Rightarrow> 'v vault \<Rightarrow> 'v vault" where
  "set_member_expiry key e s =
     (case object_prototype s key of
        None \<Rightarrow> s
      | Some m \<Rightarrow> s\<lparr>object_prototype := (object_prototype s)(key \<mapsto> m\<lparr>member_expiry := Some e\<rparr>)\<rparr>)"

subsection \<open>Public operations\<close>

text \<open>
  Each operation takes the time \<open>now\<close> and the state and returns what it returns or
  throws (\<open>Inl\<close>) and the state it leaves.
\<close>

definition removeItem :: "'v config \<Rightarrow> int \<Rightarrow> string \<Rightarrow> 'v vault \<Rightarrow> (error + bool) \<times> 'v vault" where
  "removeItem cfg now key s =
     (case validateKey key (storage s) of
        Some e \<Rightarrow> (Inl e, s)
      | None \<Rightarrow>
          (case getAllData cfg s of
             (data, s1) \<Rightarrow>
               if js_in (object_prototype s1) data key
               then returning True (saveAllData cfg now (AList.delete key data) s1)
               else (Inr False, s1)))"

definition setItem ::
  "'v config \<Rightarrow> int \<Rightarrow> string \<Rightarrow> 'v \<Rightarrow> number option \<Rightarrow> 'v vault \<Rightarrow> (error + bool) \<times> 'v vault" where
  "setItem cfg now key v ttl s =
     (case validateKey key (storage s) of
        Some e \<Rightarrow> (Inl e, s)
      | None \<Rightarrow>
          if ttl \<noteq> None \<and> (\<not> isFinite (the ttl) \<or> less_than_zero (the ttl)) then (Inl InvalidTTL, s)
          else if ttl = Some (Finite 0) then removeItem cfg now key s
          else
            (case getAllData cfg s of
               (data, s1) \<Rightarrow>
                 (let e = (case ttl of Some (Finite t) \<Rightarrow> Some (now + t) | _ \<Rightarrow> None)
                  in returning True
                       (saveAllData cfg now
                          (AList.update key \<lparr>stored_value = v, expiry = e\<rparr> data) s1))))"

definition getItem :: "'v config \<Rightarrow> int \<Rightarrow> string \<Rightarrow> 'v vault \<Rightarrow> (error + 'v returned) \<times> 'v vault" where
  "getItem cfg now key s =
     (case validateKey key (storage s) of
        Some e \<Rightarrow> (Inl e, s)
      | None \<Rightarrow>
          (case getAllData cfg s of
             (data, s1) \<Rightarrow>
               (case js_get (object_prototype s1) data key of
                  Missing \<Rightarrow> (Inr Null, s1)
                | Own i \<Rightarrow>
                    (case removeIfExpired now key (Own i) data of
                       (expired, data') \<Rightarrow>
                         if expired then returning Null (saveAllData cfg now data' s1)
                         else (Inr (Value (stored_value i)), s1))
                | Inherited m \<Rightarrow>
                    (case removeIfExpired now key (Inherited m) data of
                       (expired, data') \<Rightarrow>
                         if expired then returning Null (saveAllData cfg now data' s1)
                         else (Inr (case member_value m of None \<Rightarrow> Undefined | Some v \<Rightarrow> Value v),
                               s1)))))"

definition updateItem :: "'v config \<Rightarrow> int \<Rightarrow> string \<Rightarrow> 'v \<Rightarrow> 'v vault \<Rightarrow> (error + bool) \<times> 'v vault" where
  "updateItem cfg now key newValue s =
     (case validateKey key (storage s) of
        Some e \<Rightarrow> (Inl e, s)
      | None \<Rightarrow>
          (case getAllData cfg s of
             (data, s1) \<Rightarrow>
               (case js_get (object_prototype s1) data key of
                  Missing \<Rightarrow> (Inr False, s1)
                | Own i \<Rightarrow>
                    (case removeIfExpired now key (Own i) data of
                       (expired, data') \<Rightarrow>
                         if expired then returning False (saveAllData cfg now data' s1)
                         else returning True
                                (saveAllData cfg now
                                   (AList.update key (i\<lparr>stored_value := newValue\<rparr>) data') s1))
                | Inherited m \<Rightarrow>
                    (case removeIfExpired now key (Inherited m) data of
                       (expired, data') \<Rightarrow>
                         if expired then returning False (saveAllData cfg now data' s1)
                         else returning True
                                (saveAllData cfg now data' (set_member_value key newValue s1))))))"

definition extendTTL :: "'v config \<Rightarrow> int \<Rightarrow> string \<Rightarrow> number \<Rightarrow> 'v vault \<Rightarrow> (error + bool) \<times> 'v vault" where
  "extendTTL cfg now key additionalTTL s =
     (case validateKey key (storage s) of
        Some e \<Rightarrow> (Inl e, s)
      | None \<Rightarrow>
          (case additionalTTL of
             Finite delta \<Rightarrow>
               if delta \<le> 0 then (Inl InvalidAdditionalTTL, s)
               else
                 (case getAllData cfg s of
                    (data, s1) \<Rightarrow>
                      (case js_get (object_prototype s1) data key of
                         Missing \<Rightarrow> (Inr False, s1)
                       | Own i \<Rightarrow>
                           (case removeIfExpired now key (Own i) data of
                              (expired, data') \<Rightarrow>
                                if expired then returning False (saveAllData cfg now data' s1)
                                else
                                  (let e = (case expiry i of
                                              Some old \<Rightarrow> old + delta
                                            | None \<Rightarrow> now + delta)
                                   in returning True
                                        (saveAllData cfg now
                                           (AList.update key (i\<lparr>expiry := Some e\<rparr>) data') s1)))
                       | Inherited m \<Rightarrow>
                           (case removeIfExpired now key (Inherited m) data of
                              (expired, data') \<Rightarrow>
                                if expired then returning False (saveAllData cfg now data' s1)
                                else returning True
                                       (saveAllData cfg now data'
                                          (set_member_expiry key (js_plus (member_expiry m) delta) s1)))))
           | _ \<Rightarrow> (Inl InvalidAdditionalTTL, s)))"

definition hasItem :: "'v config \<Rightarrow> int \<Rightarrow> string \<Rightarrow> 'v vault \<Rightarrow> (error + bool) \<times> 'v vault" where
  "hasItem cfg now key s =
     (case validateKey key (storage s) of
        Some e \<Rightarrow> (Inl e, s)
      | None \<Rightarrow>
          (case getAllData cfg s of
             (data, s1) \<Rightarrow>
               (case js_get (object_prototype s1) data key of
                  Missing \<Rightarrow> (Inr False, s1)
                | Own i \<Rightarrow>
                    (case removeIfExpired now key (Own i) data of
                       (expired, data') \<Rightarrow>
                         if expired then returning False (saveAllData cfg now data' s1)
                         else (Inr True, s1))
                | Inherited m \<Rightarrow>
                    (case removeIfExpired now key (Inherited m) data of
                       (expired, data') \<Rightarrow>
                         if expired then returning False (saveAllData cfg now data' s1)
                         else (Inr True, s1)))))"

text \<open>
  \<open>getRemainingTTL\<close> has no call of \<open>validateKey\<close>. Its test \<open>item.expiry === null\<close> lets
  the missing \<open>expiry\<close> of an inherited member through, and the difference is \<open>NaN\<close>.
\<close>

definition getRemainingTTL ::
  "'v config \<Rightarrow> int \<Rightarrow> string \<Rightarrow> 'v vault \<Rightarrow> (error + number option) \<times> 'v vault" where
  "getRemainingTTL cfg now key s =
     (if \<not> isAvailable (storage s) then (Inr None, s)
      else
        (case getAllData cfg s of
           (data, s1) \<Rightarrow>
             (case js_get (object_prototype s1) data key of
                Missing \<Rightarrow> (Inr None, s1)
              | Own item \<Rightarrow>
                  (case expiry item of
                     None \<Rightarrow> (Inr None, s1)
                   | Some e \<Rightarrow>
                       (let remainingTime = e - now
                        in if remainingTime \<le> 0
                           then returning None (saveAllData cfg now (AList.delete key data) s1)
                           else (Inr (Some (Finite remainingTime)), s1)))
              | Inherited m \<Rightarrow>
                  (let remainingTime = js_minus (member_expiry m) now
                   in if at_most_zero remainingTime
                      then returning None (saveAllData cfg now (AList.delete key data) s1)
                      else (Inr (Some remainingTime), s1)))))"

definition live :: "int \<Rightarrow> 'v StoredData \<Rightarrow> bool" where
  "live now item = (case expiry item of None \<Rightarrow> True | Some e \<Rightarrow> now \<le> e)"

text \<open>
  \<open>getAllKeys\<close> and \<open>getAll\<close> go through the own properties only. In \<open>getAll\<close> the assignment
  \<open>result[key] = item.value\<close> with the key \<open>__proto__\<close> calls the setter of
  \<open>Object.prototype\<close> and adds no property to \<open>result\<close>.
\<close>

definition getAllKeys :: "'v config \<Rightarrow> int \<Rightarrow> 'v vault \<Rightarrow> string list \<times> 'v vault" where
  "getAllKeys cfg now s =
     (if \<not> isAvailable (storage s) then ([], s)
      else
        (case getAllData cfg s of
           (data, s1) \<Rightarrow>
             (filter (\<lambda>key. case map_of data key of None \<Rightarrow> False | Some item \<Rightarrow> live now item)
                (map fst data), s1)))"

definition getAll :: "'v config \<Rightarrow> int \<Rightarrow> 'v vault \<Rightarrow> (string \<times> 'v) list \<times> 'v vault" where
  "getAll cfg now s =
     (if \<not> isAvailable (storage s) then ([], s)
      else
        (case getAllData cfg s of
           (data, s1) \<Rightarrow>
             (foldl (\<lambda>result key.
                       case map_of data key of
                         None \<Rightarrow> result
                       | Some item \<Rightarrow>
                           if live now item \<and> key \<noteq> ''__proto__''
                           then AList.update key (stored_value item) result
                           else result)
                [] (map fst data), s1)))"

definition clear :: "'v config \<Rightarrow> 'v vault \<Rightarrow> (error + bool) \<times> 'v vault" where
  "clear cfg s =
     (if \<not> isAvailable (storage s) then (Inl StorageUnavailable, s)
      else
        (let s1 = (cancel_pending s)\<lparr>dirtyData := None\<rparr>
         in case storage_remove (storage s1) (storageKey cfg) of
              (None, st) \<Rightarrow> (Inr True, s1\<lparr>storage := st\<rparr>)
            | (Some t, st) \<Rightarrow> (Inl ClearFailed, s1\<lparr>storage := st\<rparr>)))"

section \<open>Notions used to state the properties\<close>

text \<open>
  What a save puts into the store for a record set, and whether a direct write of a
  record set in a state goes through and reads back as the same record set.
\<close>

definition encode :: "'v config \<Rightarrow> 'v DataRecord \<Rightarrow> string option" where
  "encode cfg d =
     (case json_stringify cfg d of
        Inl t \<Rightarrow> None
      | Inr dataStr \<Rightarrow> (case transform_apply cfg dataStr of Inl t \<Rightarrow> None | Inr str \<Rightarrow> Some str))"

definition write_reads_back :: "'v config \<Rightarrow> 'v vault \<Rightarrow> 'v DataRecord \<Rightarrow> bool" where
  "write_reads_back cfg s d =
     (fst (serialize_and_write cfg d s) = None \<and>
      fst (getAllData cfg (snd (serialize_and_write cfg d s))) = d)"

text \<open>
  The record set an engine holds: its dirty buffer or, when it has none, what the
  non-empty entry of the store under its key decodes to.
\<close>

definition holds :: "'v config \<Rightarrow> 'v vault \<Rightarrow> 'v DataRecord \<Rightarrow> bool" where
  "holds cfg s data =
     (case storage s of
        None \<Rightarrow> False
      | Some b \<Rightarrow>
          (case dirtyData s of
             Some d \<Rightarrow> d = data
           | None \<Rightarrow>
               (case entries b (storageKey cfg) of
                  None \<Rightarrow> False
                | Some raw \<Rightarrow> raw \<noteq> [] \<and> decode cfg raw = Some data)))"

text \<open>The only timer of the host that can still fire is the one the engine tracks.\<close>

definition timers_tracked :: "'v vault \<Rightarrow> bool" where
  "timers_tracked s = (timers s = (case pendingSave s of None \<Rightarrow> [] | Some t \<Rightarrow> [t]))"

text \<open>The log of the writes that reached the store of an engine.\<close>

definition writes_of :: "'v vault \<Rightarrow> (string \<times> string) list" where
  "writes_of s = (case storage s of None \<Rightarrow> [] | Some b \<Rightarrow> written b)"

text \<open>The state after \<open>setItem(key, v1); setItem(key, v2)\<close> with no timer fired between.\<close>

definition two_writes :: "'v config \<Rightarrow> int \<Rightarrow> int \<Rightarrow> string \<Rightarrow> 'v \<Rightarrow> 'v \<Rightarrow> 'v vault \<Rightarrow> 'v vault" where
  "two_writes cfg now1 now2 key v1 v2 s =
     snd (setItem cfg now2 key v2 None (snd (setItem cfg now1 key v1 None s)))"

text \<open>\<open>a\<close> expires no later than \<open>b\<close>, an item without expiry expiring last.\<close>

fun expires_no_later :: "int option \<Rightarrow> int option \<Rightarrow> bool" where
  "expires_no_later (Some a) (Some b) = (a \<le> b)"
| "expires_no_later a None = True"
| "expires_no_later None (Some b) = False"

text \<open>
  The pointers of a store realise a list of addresses: each element points forward to
  the next one and the next one points back.
\<close>

fun chained :: "handler_store \<Rightarrow> nat list \<Rightarrow> bool" where
  "chained H (a # b # rest) =
     (nextHandler (node H a) = Some b \<and> prevHandler (node H b) = Some a \<and> chained H (b # rest))"
| "chained H [a] = True"
| "chained H [] = True"

section \<open>The states an engine goes through\<close>

text \<open>
  An engine starts as the constructor leaves it and then changes only by its own
  operations, by the host firing a timer or the unload handler, and by other code
  changing what the store holds.
\<close>

definition constructed :: "backend option \<Rightarrow> nat \<Rightarrow> 'v prototype \<Rightarrow> 'v vault" where
  "constructed st n proto =
     \<lparr>storage = st, isCleaningUp = False, pendingSave = None, dirtyData = None,
      timers = [], next_timer = n, object_prototype = proto\<rparr>"

inductive reachable :: "'v config \<Rightarrow> 'v vault \<Rightarrow> bool" for cfg :: "'v config" where
  r_new: "reachable cfg (constructed st n proto)"
| r_setItem: "reachable cfg s \<Longrightarrow> reachable cfg (snd (setItem cfg now key v ttl s))"
| r_getItem: "reachable cfg s \<Longrightarrow> reachable cfg (snd (getItem cfg now key s))"
| r_updateItem: "reachable cfg s \<Longrightarrow> reachable cfg (snd (updateItem cfg now key v s))"
| r_extendTTL: "reachable cfg s \<Longrightarrow> reachable cfg (snd (extendTTL cfg now key n s))"
| r_removeItem: "reachable cfg s \<Longrightarrow> reachable cfg (snd (removeItem cfg now key s))"
| r_hasItem: "reachable cfg s \<Longrightarrow> reachable cfg (snd (hasItem cfg now key s))"
| r_getRemainingTTL: "reachable cfg s \<Longrightarrow> reachable cfg (snd (getRemainingTTL cfg now key s))"
| r_cleanupExpiredItems: "reachable cfg s \<Longrightarrow> reachable cfg (snd (cleanupExpiredItems cfg now s))"
| r_getAllKeys: "reachable cfg s \<Longrightarrow> reachable cfg (snd (getAllKeys cfg now s))"
| r_getAll: "reachable cfg s \<Longrightarrow> reachable cfg (snd (getAll cfg now s))"
| r_getAllData: "reachable cfg s \<Longrightarrow> reachable cfg (snd (getAllData cfg s))"
| r_flush: "reachable cfg s \<Longrightarrow> reachable cfg (snd (flush cfg now s))"
| r_clear: "reachable cfg s \<Longrightarrow> reachable cfg (snd (clear cfg s))"
| r_fire: "reachable cfg s \<Longrightarrow> reachable cfg (fire_timer cfg now t s)"
| r_unload: "reachable cfg s \<Longrightarrow> reachable cfg (snd (unload_handler cfg now s))"
| r_store: "reachable cfg s \<Longrightarrow> storage s = Some b \<Longrightarrow>
     reachable cfg (s\<lparr>storage := Some (b\<lparr>entries := other\<rparr>)\<rparr>)"

text \<open>
  What holds in every such state: the engine tracks its only timer, it is not in the
  middle of a cleanup, and a dirty buffer exists only with a store and a positive
  debounce.
\<close>

definition engine_invariant :: "'v config \<Rightarrow> 'v vault \<Rightarrow> bool" where
  "engine_invariant cfg s =
     (timers_tracked s \<and> \<not> isCleaningUp s \<and>
      (dirtyData s = None \<or> (storage s \<noteq> None \<and> debounceMs cfg > 0)))"

text \<open>
  Two states of an engine that differ at most in what the store holds.
\<close>

definition same_engine :: "'v vault \<Rightarrow> 'v vault \<Rightarrow> bool" where
  "same_engine s s' =
     (pendingSave s' = pendingSave s \<and> timers s' = timers s \<and> next_timer s' = next_timer s \<and>
      dirtyData s' = dirtyData s \<and> (storage s' = None) = (storage s = None) \<and>
      isCleaningUp s' = isCleaningUp s \<and> object_prototype s' = object_prototype s)"

section \<open>Objects and references: what getAllData hands out\<close>

text \<open>
  Whether a caller can reach the dirty buffer through the result of \<open>getAllData\<close> is a
  question about object identity, so here the record sets are objects in a store. An
  address is an index into the store. A record object has its properties, each the
  address of an item object, and the flag \<open>Object.freeze\<close> sets; an item object has its
  value and expiry.
\<close>

datatype 'v jsobject = RecordObject "(string \<times> nat) list" bool | ItemObject 'v "int option"

fun props :: "'v jsobject \<Rightarrow> (string \<times> nat) list" where
  "props (RecordObject ps frozen) = ps"
| "props (ItemObject v e) = []"

definition alloc :: "'v jsobject list \<Rightarrow> 'v jsobject \<Rightarrow> nat \<times> 'v jsobject list" where
  "alloc h obj = (length h, h @ [obj])"

text \<open>The objects \<open>JSON.parse\<close> creates for a record set: the items, then the record.\<close>

fun alloc_items :: "'v jsobject list \<Rightarrow> 'v DataRecord \<Rightarrow> (string \<times> nat) list \<times> 'v jsobject list" where
  "alloc_items h [] = ([], h)"
| "alloc_items h (e # d) =
     (case alloc h (ItemObject (stored_value (snd e)) (expiry (snd e))) of
        (a, h1) \<Rightarrow> (case alloc_items h1 d of (ps, h2) \<Rightarrow> ((fst e, a) # ps, h2)))"

definition alloc_record :: "'v jsobject list \<Rightarrow> 'v DataRecord \<Rightarrow> nat \<times> 'v jsobject list" where
  "alloc_record h d = (case alloc_items h d of (ps, h1) \<Rightarrow> alloc h1 (RecordObject ps False))"

text \<open>
  The record set an address stands for: what \<open>JSON.stringify\<close> would read through
  it. \<open>None\<close> when the address or one of the item addresses holds no such object.
\<close>

definition item_at :: "'v jsobject list \<Rightarrow> nat \<Rightarrow> 'v StoredData option" where
  "item_at h a =
     (if a < length h
      then (case h ! a of ItemObject v e \<Rightarrow> Some \<lparr>stored_value = v, expiry = e\<rparr>
                        | RecordObject ps frozen \<Rightarrow> None)
      else None)"

fun read_props :: "'v jsobject list \<Rightarrow> (string \<times> nat) list \<Rightarrow> 'v DataRecord option" where
  "read_props h [] = Some []"
| "read_props h (p # ps) =
     (case item_at h (snd p) of
        None \<Rightarrow> None
      | Some i \<Rightarrow> (case read_props h ps of None \<Rightarrow> None | Some d \<Rightarrow> Some ((fst p, i) # d)))"

definition deref :: "'v jsobject list \<Rightarrow> nat \<Rightarrow> 'v DataRecord option" where
  "deref h r =
     (if r < length h
      then (case h ! r of RecordObject ps frozen \<Rightarrow> read_props h ps | ItemObject v e \<Rightarrow> None)
      else None)"

text \<open>
  \<open>getAllData\<close> of \<open>vault/storage-vault.ts\<close> on objects. It takes the fields it reads
  (the adapter, the reference in \<open>dirtyData\<close>) and the store, and returns the address of
  its result, the store and the adapter. \<open>{ ...this.dirtyData }\<close> is a new record object
  with the properties of the buffer.
\<close>

definition getAllData_ref ::
  "'v config \<Rightarrow> backend option \<Rightarrow> nat option \<Rightarrow> 'v jsobject list \<Rightarrow> (nat \<times> 'v jsobject list) \<times> backend option" where
  "getAllData_ref cfg st dirty h =
     (if st = None then (alloc h (RecordObject [] False), st)
      else case dirty of
        Some r \<Rightarrow> (alloc h (RecordObject (props (h ! r)) False), st)
      | None \<Rightarrow>
          (case storage_read st (storageKey cfg) of
             None \<Rightarrow> (alloc h (RecordObject [] False), st)
           | Some dataStr \<Rightarrow>
               if dataStr = [] then (alloc h (RecordObject [] False), st)
               else (case decode cfg dataStr of
                       Some d \<Rightarrow> (alloc_record h d, st)
                     | None \<Rightarrow> (alloc h (RecordObject [] False), snd (storage_remove st (storageKey cfg))))))"

text \<open>
  \<open>getAllData\<close> of the earlier engine, \<open>core/vault.ts\<close>. It differs in the branch of the
  dirty buffer: \<open>return Object.freeze(this.dirtyData ?? {})\<close> freezes the buffer and
  returns it.
\<close>

definition freeze :: "'v jsobject \<Rightarrow> 'v jsobject" where
  "freeze obj = (case obj of RecordObject ps frozen \<Rightarrow> RecordObject ps True | ItemObject v e \<Rightarrow> ItemObject v e)"

definition getAllData_core_ref ::
  "'v config \<Rightarrow> backend option \<Rightarrow> nat option \<Rightarrow> 'v jsobject list \<Rightarrow> (nat \<times> 'v jsobject list) \<times> backend option" where
  "getAllData_core_ref cfg st dirty h =
     (if st = None then (alloc h (RecordObject [] False), st)
      else case dirty of
        Some r \<Rightarrow> ((r, h[r := freeze (h ! r)]), st)
      | None \<Rightarrow>
          (case storage_read st (storageKey cfg) of
             None \<Rightarrow> (alloc h (RecordObject [] False), st)
           | Some dataStr \<Rightarrow>
               if dataStr = [] then (alloc h (RecordObject [] False), st)
               else (case decode cfg dataStr of
                       Some d \<Rightarrow> (alloc_record h d, st)
                     | None \<Rightarrow> (alloc h (RecordObject [] False), snd (storage_remove st (storageKey cfg))))))"

text \<open>
  What a caller can do to a record it holds: \<open>data[key] = { value, expiry }\<close> with a
  new item object, \<open>delete data[key]\<close>, and \<open>data[key].value = v\<close>, a write through the
  item the property refers to. The first two change the properties of the record and
  throw a \<open>TypeError\<close> on a frozen object (the modules are strict code); the third throws
  when the record has no such property. \<open>Object.freeze\<close> does not freeze the items. A
  statement that throws is \<open>None\<close>.
\<close>

datatype 'v mutation = Assign string 'v "int option" | Delete string | Write string 'v

fun changes_properties :: "'v mutation \<Rightarrow> bool" where
  "changes_properties (Assign key v e) = True"
| "changes_properties (Delete key) = True"
| "changes_properties (Write key v) = False"

text \<open>\<open>item.value = v\<close> through the address of an item object.\<close>

definition set_item_value :: "'v jsobject list \<Rightarrow> nat \<Rightarrow> 'v \<Rightarrow> 'v jsobject list" where
  "set_item_value h a v =
     (case h ! a of ItemObject v' e \<Rightarrow> h[a := ItemObject v e] | RecordObject ps frozen \<Rightarrow> h)"

fun mutate :: "'v jsobject list \<Rightarrow> nat \<Rightarrow> 'v mutation \<Rightarrow> 'v jsobject list option" where
  "mutate h r (Assign key v e) =
     (case h ! r of
        RecordObject ps frozen \<Rightarrow>
          if frozen then None
          else (case alloc h (ItemObject v e) of
                  (a, h1) \<Rightarrow> Some (h1[r := RecordObject (AList.update key a ps) frozen]))
      | ItemObject v' e' \<Rightarrow> None)"
| "mutate h r (Delete key) =
     (case h ! r of
        RecordObject ps frozen \<Rightarrow>
          if frozen then None else Some (h[r := RecordObject (AList.delete key ps) frozen])
      | ItemObject v' e' \<Rightarrow> None)"
| "mutate h r (Write key v) =
     (case map_of (props (h ! r)) key of
        None \<Rightarrow> None
      | Some a \<Rightarrow> Some (set_item_value h a v))"

text \<open>A sequence of such statements; it stops at the first that throws.\<close>

fun mutate_all :: "'v jsobject list \<Rightarrow> nat \<Rightarrow> 'v mutation list \<Rightarrow> 'v jsobject list" where
  "mutate_all h r [] = h"
| "mutate_all h r (m # ms) = (case mutate h r m of None \<Rightarrow> h | Some h' \<Rightarrow> mutate_all h' r ms)"

section \<open>Concrete instances\<close>

text \<open>
  A link that appends a character and removes the last one again, a handler made of
  it, and a store with two such handlers that no chain has linked yet.
\<close>

definition suffix_link :: "char \<Rightarrow> StorageTransform" where
  "suffix_link c = \<lparr>serialize = (\<lambda>x. Some (x @ [c])), deserialize = (\<lambda>y. Some (butlast y))\<rparr>"

definition suffix_handler :: "char \<Rightarrow> TransformHandler" where
  "suffix_handler c = InlineTransformHandler (suffix_link c)"

definition two_handlers :: handler_store where
  "two_handlers = \<lparr>node = (\<lambda>a. if a = 0 then suffix_handler CHR ''A'' else suffix_handler CHR ''B''), brk = 2\<rparr>"

text \<open>
  A configuration for concrete runs. The values are strings; \<open>demo_stringify\<close> writes a
  record set as \<open>{key=value@expiry;...}\<close> with the expiry in unary, standing in for
  \<open>JSON.stringify\<close>, and \<open>demo_parse\<close> reads back the texts of the record sets listed in
  \<open>demo_records\<close>, reads \<open>[]\<close> as an array and rejects every other text. The chain is
  empty. \<open>demo_backend\<close> is a store that holds \<open>content\<close> under the engine's key and
  rejects the writes \<open>reject\<close> says; \<open>demo_vault\<close> is a new engine on it, in a host with
  the standard \<open>Object.prototype\<close>.
\<close>

definition demo_entry :: "string \<times> string StoredData \<Rightarrow> string" where
  "demo_entry e =
     fst e @ ''='' @ stored_value (snd e) @
     (case expiry (snd e) of None \<Rightarrow> [] | Some t \<Rightarrow> ''@'' @ replicate (nat t) CHR ''1'') @ '';''"

definition demo_stringify :: "string DataRecord \<Rightarrow> thrown + string" where
  "demo_stringify d = Inr (''{'' @ concat (map demo_entry d) @ ''}'')"

definition demo_records :: "string DataRecord list" where
  "demo_records =
     [[],
      [(''old'', \<lparr>stored_value = ''a'', expiry = Some 5\<rparr>)],
      [(''k'', \<lparr>stored_value = ''v'', expiry = None\<rparr>)],
      [(''old'', \<lparr>stored_value = ''a'', expiry = Some 5\<rparr>), (''k'', \<lparr>stored_value = ''v'', expiry = None\<rparr>)],
      [(''k'', \<lparr>stored_value = ''v'', expiry = Some 5\<rparr>)]]"

definition demo_parse :: "string \<Rightarrow> string parsed option" where
  "demo_parse str =
     (if str = ''[]'' then Some PArray
      else case find (\<lambda>d. demo_stringify d = Inr str) demo_records of
             Some d \<Rightarrow> Some (PObject d)
           | None \<Rightarrow> None)"

definition demo_cfg :: "int \<Rightarrow> string config" where
  "demo_cfg ms =
     \<lparr>storageKey = ''APP_DATA'', maxSizeBytes = 4000000, maxItemsInMemory = 1000, debounceMs = ms,
      transform_apply = Inr, transform_reverse = Some,
      json_stringify = demo_stringify, json_parse = demo_parse\<rparr>"

definition demo_backend :: "medium \<Rightarrow> string option \<Rightarrow> (nat \<Rightarrow> string \<Rightarrow> bool) \<Rightarrow> backend" where
  "demo_backend m content reject =
     \<lparr>medium = m, entries = (\<lambda>k. if k = ''APP_DATA'' then content else None),
      quota_exceeded = reject, attempts = 0, written = [], remove_throws = False\<rparr>"

definition demo_vault :: "backend \<Rightarrow> string vault" where
  "demo_vault b = constructed (Some b) 0 standard_prototype"

text \<open>An engine whose dirty buffer holds one item that expired at time 5.\<close>

definition expired_in_buffer :: "string vault" where
  "expired_in_buffer =
     (demo_vault (demo_backend WebStorage None (\<lambda>n v. False)))
       \<lparr>dirtyData := Some [(''k'', \<lparr>stored_value = ''v'', expiry = Some 5\<rparr>)]\<rparr>"

text \<open>
  Engines on a web store that holds one item, expired at 5: one whose store accepts
  every write and one whose store rejects every write.
\<close>

definition expired_in_store :: "string vault" where
  "expired_in_store = demo_vault (demo_backend WebStorage (Some ''{old=a@11111;}'') (\<lambda>n v. False))"

definition stuck_vault :: "string vault" where
  "stuck_vault = demo_vault (demo_backend WebStorage (Some ''{old=a@11111;}'') (\<lambda>n v. True))"

text \<open>
  An engine with immediate writes on a web store that holds one item and rejects the
  first write only.
\<close>

definition rejects_once_vault :: "string vault" where
  "rejects_once_vault = demo_vault (demo_backend WebStorage (Some ''{k=v;}'') (\<lambda>n v. n = 0))"

text \<open>
  An engine on a web store that holds one item, expired at 5, and rejects the first
  write only; and a configuration whose chain throws on \<open>apply\<close>.
\<close>

definition rejects_first_vault :: "string vault" where
  "rejects_first_vault = demo_vault (demo_backend WebStorage (Some ''{old=a@11111;}'') (\<lambda>n v. n = 0))"

definition throwing_chain_cfg :: "string config" where
  "throwing_chain_cfg = (demo_cfg 100)\<lparr>transform_apply := (\<lambda>str. Inl OtherThrown)\<rparr>"

text \<open>A new engine on an empty web store, and one on a web store that holds one item.\<close>

definition fresh_web_vault :: "string vault" where
  "fresh_web_vault = demo_vault (demo_backend WebStorage None (\<lambda>n v. False))"

definition stored_web_vault :: "string vault" where
  "stored_web_vault = demo_vault (demo_backend WebStorage (Some ''{k=v;}'') (\<lambda>n v. False))"

text \<open>
  An engine on a \<open>Map\<close> with immediate writes and room for one item, and a record set
  of two items: one that expires at 5 and one that never expires.
\<close>

definition small_map_cfg :: "string config" where
  "small_map_cfg = (demo_cfg 0)\<lparr>maxItemsInMemory := 1\<rparr>"

definition map_vault :: "string vault" where
  "map_vault = demo_vault (demo_backend MapStorage None (\<lambda>n v. False))"

definition two_items :: "string DataRecord" where
  "two_items = [(''old'', \<lparr>stored_value = ''a'', expiry = Some 5\<rparr>),
                (''k'', \<lparr>stored_value = ''v'', expiry = None\<rparr>)]"

text \<open>
  Engines on a web store whose entry under the engine's key is text that does not
  decode (one store accepts every write, one rejects every write), and the empty
  string.
\<close>

definition garbage_vault :: "string vault" where
  "garbage_vault = demo_vault (demo_backend WebStorage (Some ''garbage'') (\<lambda>n v. False))"

definition garbage_stuck_vault :: "string vault" where
  "garbage_stuck_vault = demo_vault (demo_backend WebStorage (Some ''garbage'') (\<lambda>n v. True))"

definition empty_entry_vault :: "string vault" where
  "empty_entry_vault = demo_vault (demo_backend WebStorage (Some []) (\<lambda>n v. False))"

text \<open>
  An engine with immediate writes on a web store that takes at most 15 characters under
  a key and holds one item, expired at 5.
\<close>

definition full_vault :: "string vault" where
  "full_vault = demo_vault (demo_backend WebStorage (Some ''{old=a@11111;}'') (\<lambda>n v. length v > 15))"

text \<open>A store with one item object and a record object that has it as property \<open>k\<close>.\<close>

definition one_record_heap :: "string jsobject list" where
  "one_record_heap = [ItemObject ''v'' None, RecordObject [(''k'', 0)] False]"

section \<open>The symmetry of the transform pipelines\<close>

lemma pipeline_apply_Cons:
  "pipeline_apply (t # ts) x = (case serialize t x of None \<Rightarrow> None | Some y \<Rightarrow> pipeline_apply ts y)"
proof -
  have none: "foldl (pipeline_step serialize) None ts = None" for ts
    by (induction ts) (simp_all add: pipeline_step_def)
  show ?thesis
    by (cases "serialize t x") (simp_all add: pipeline_apply_def pipeline_step_def none)
qed

lemma pipeline_apply_Nil [simp]: "pipeline_apply [] x = Some x"
  by (simp add: pipeline_apply_def)

lemma pipeline_reverse_Nil [simp]: "pipeline_reverse [] x = Some x"
  by (simp add: pipeline_reverse_def)

lemma pipeline_reverse_Cons:
  "pipeline_reverse (t # ts) y = (case pipeline_reverse ts y of None \<Rightarrow> None | Some z \<Rightarrow> deserialize t z)"
  by (simp add: pipeline_reverse_def pipeline_step_def)

lemma pipeline_symmetric:
  "\<forall>t \<in> set ts. inverts (deserialize t) (serialize t) \<Longrightarrow>
   \<exists>y. pipeline_apply ts x = Some y \<and> pipeline_reverse ts y = Some x"
proof (induction ts arbitrary: x)
  case Nil
  then show ?case by (simp add: pipeline_apply_def pipeline_reverse_def)
next
  case (Cons t ts)
  from Cons.prems obtain y1 where y1: "serialize t x = Some y1" "deserialize t y1 = Some x"
    unfolding inverts_def by (metis list.set_intros(1))
  from Cons.prems Cons.IH[of y1] obtain y where
    y: "pipeline_apply ts y1 = Some y" "pipeline_reverse ts y = Some y1" by auto
  show ?case
    by (rule exI[of _ y]) (simp add: pipeline_apply_Cons pipeline_reverse_Cons y1 y)
qed


lemma setNext_process [simp]:
  "process (node (setNext H a b) c) = process (node H c)"
  "reverseProcess (node (setNext H a b) c) = reverseProcess (node H c)"
  by (simp_all add: setNext_def Let_def)

lemma setNext_other [simp]:
  "c \<noteq> a \<Longrightarrow> c \<noteq> b \<Longrightarrow> node (setNext H a b) c = node H c"
  by (simp add: setNext_def Let_def)

lemma setNext_next [simp]:
  "nextHandler (node (setNext H a b) c) = (if c = a then Some b else nextHandler (node H c))"
  by (simp add: setNext_def Let_def)

lemma setNext_prev [simp]:
  "prevHandler (node (setNext H a b) c) = (if c = b then Some a else prevHandler (node H c))"
  by (simp add: setNext_def Let_def)

lemma link_all_process [simp]:
  "process (node (link_all H as) c) = process (node H c)"
  "reverseProcess (node (link_all H as) c) = reverseProcess (node H c)"
  by (induction H as rule: link_all.induct) simp_all

lemma link_all_next:
  "c \<notin> set (butlast as) \<Longrightarrow> nextHandler (node (link_all H as) c) = nextHandler (node H c)"
  by (induction H as rule: link_all.induct) auto

lemma link_all_prev:
  "c \<notin> set (tl as) \<Longrightarrow> prevHandler (node (link_all H as) c) = prevHandler (node H c)"
  by (induction H as rule: link_all.induct) auto

lemma chained_link_all:
  "distinct as \<Longrightarrow> chained (link_all H as) as"
proof (induction H as rule: link_all.induct)
  case (1 H a b rest)
  from "1.prems" have a: "a \<notin> set (butlast (b # rest))"
    by (auto dest: in_set_butlastD)
  from "1.prems" have b: "b \<notin> set (tl (b # rest))" by simp
  have "nextHandler (node (link_all (setNext H a b) (b # rest)) a) = Some b"
    using link_all_next[OF a, of "setNext H a b"] by simp
  moreover have "prevHandler (node (link_all (setNext H a b) (b # rest)) b) = Some a"
    using link_all_prev[OF b, of "setNext H a b"] by simp
  moreover have "chained (link_all (setNext H a b) (b # rest)) (b # rest)"
    using 1 by simp
  ultimately show ?case by simp
qed simp_all


lemma as_transform_sel [simp]:
  "serialize (as_transform H c) = process (node H c)"
  "deserialize (as_transform H c) = reverseProcess (node H c)"
  by (simp_all add: as_transform_def)

lemma serialize_chained:
  "chained H (a # as) \<Longrightarrow> nextHandler (node H (last (a # as))) = None \<Longrightarrow> length as < stack \<Longrightarrow>
   serialize_node stack H a x =
     (case pipeline_apply (map (as_transform H) (a # as)) x
      of None \<Rightarrow> Threw | Some y \<Rightarrow> Done y)"
proof (induction as arbitrary: a x stack)
  case Nil
  then obtain n where "stack = Suc n" by (cases stack) auto
  with Nil show ?case
    by (simp add: pipeline_apply_Cons split: option.splits)
next
  case (Cons b bs)
  then obtain n where n: "stack = Suc n" by (cases stack) auto
  from Cons.prems have nb: "nextHandler (node H a) = Some b" and ch: "chained H (b # bs)" by simp_all
  have IH: "serialize_node n H b y =
     (case pipeline_apply (map (as_transform H) (b # bs)) y
      of None \<Rightarrow> Threw | Some y \<Rightarrow> Done y)" for y
    using Cons.IH[OF ch, of n y] Cons.prems n by simp
  show ?case
    unfolding n by (simp add: nb IH pipeline_apply_Cons[of "as_transform H a"] split: option.splits)
qed


lemma pipeline_reverse_snoc:
  "pipeline_reverse (ts @ [t]) y = (case deserialize t y of None \<Rightarrow> None | Some w \<Rightarrow> pipeline_reverse ts w)"
proof -
  have none: "foldr (\<lambda>transform current. pipeline_step deserialize current transform) ts None = None" for ts
    by (induction ts) (simp_all add: pipeline_step_def)
  have step: "pipeline_step deserialize (Some y) t = deserialize t y"
    by (simp add: pipeline_step_def)
  show ?thesis
    by (cases "deserialize t y") (simp_all add: pipeline_reverse_def step none)
qed

lemma chained_snoc:
  "chained H (xs @ [w, z]) =
     (chained H (xs @ [w]) \<and> nextHandler (node H w) = Some z \<and> prevHandler (node H z) = Some w)"
proof (induction xs)
  case Nil
  show ?case by auto
next
  case (Cons a xs)
  show ?case
  proof (cases xs)
    case Nil
    then show ?thesis by auto
  next
    case (Cons b ys)
    with Cons.IH show ?thesis by auto
  qed
qed


lemma deserialize_chained:
  "chained H (as @ [z]) \<Longrightarrow> prevHandler (node H (hd (as @ [z]))) = None \<Longrightarrow> length as < stack \<Longrightarrow>
   deserialize_node stack H z y =
     (case pipeline_reverse (map (as_transform H) (as @ [z])) y of None \<Rightarrow> Threw | Some x \<Rightarrow> Done x)"
proof (induction as arbitrary: z y stack rule: rev_induct)
  case Nil
  then obtain n where "stack = Suc n" by (cases stack) auto
  with Nil show ?case
    by (simp add: pipeline_reverse_Cons split: option.splits)
next
  case (snoc w bs)
  then obtain n where n: "stack = Suc n" by (cases stack) auto
  from snoc.prems(1) have pz: "prevHandler (node H z) = Some w" and ch: "chained H (bs @ [w])"
    by (simp_all add: chained_snoc)
  from snoc.prems(2) have hd: "prevHandler (node H (hd (bs @ [w]))) = None"
    by (cases bs) simp_all
  have IH: "deserialize_node n H w v =
     (case pipeline_reverse (map (as_transform H) (bs @ [w])) v of None \<Rightarrow> Threw | Some x \<Rightarrow> Done x)" for v
    using snoc.IH[OF ch hd, of n v] snoc.prems n by simp
  have "pipeline_reverse (map (as_transform H) ((bs @ [w]) @ [z])) y =
        (case reverseProcess (node H z) y of None \<Rightarrow> None
         | Some v \<Rightarrow> pipeline_reverse (map (as_transform H) (bs @ [w])) v)"
    using pipeline_reverse_snoc[of "map (as_transform H) (bs @ [w])" "as_transform H z" y]
    by simp
  then show ?case
    unfolding n by (simp add: pz IH split: option.splits)
qed


lemma alloc_handler_simps [simp]:
  "fst (alloc_handler H h) = brk H"
  "brk (snd (alloc_handler H h)) = Suc (brk H)"
  "node (snd (alloc_handler H h)) c = (if c = brk H then h else node H c)"
  by (simp_all add: alloc_handler_def)

lemma normalize_brk: "normalize H hs = (nodes, H') \<Longrightarrow> brk H \<le> brk H'"
proof (induction H hs arbitrary: nodes H' rule: normalize.induct)
  case (3 H t hs)
  then show ?case
    by (auto split: prod.splits dest: Suc_leD simp: alloc_handler_def)
qed (auto split: prod.splits)

lemma normalize_old:
  "normalize H hs = (nodes, H') \<Longrightarrow> c < brk H \<Longrightarrow> node H' c = node H c"
proof (induction H hs arbitrary: nodes H' rule: normalize.induct)
  case (3 H t hs)
  then show ?case
    by (auto split: prod.splits simp: alloc_handler_def)
qed (auto split: prod.splits)

lemma normalize_nodes:
  "normalize H hs = (nodes, H') \<Longrightarrow>
   set nodes \<subseteq> set (handler_addrs hs) \<union> {brk H ..< brk H'}"
proof (induction H hs arbitrary: nodes H' rule: normalize.induct)
  case (3 H t hs)
  obtain ns H2 where n2: "normalize (snd (alloc_handler H (InlineTransformHandler t))) hs = (ns, H2)"
    by (cases "normalize (snd (alloc_handler H (InlineTransformHandler t))) hs") auto
  with "3.prems" have eq: "nodes = brk H # ns" "H' = H2"
    by (auto simp: alloc_handler_def split: prod.splits)
  from normalize_brk[OF n2] have le: "Suc (brk H) \<le> brk H2" by simp
  from "3.IH"[of "brk H" "snd (alloc_handler H (InlineTransformHandler t))" ns H2] n2
  have "set ns \<subseteq> set (handler_addrs hs) \<union> {Suc (brk H) ..< brk H2}"
    by (simp add: alloc_handler_def)
  with le show ?case unfolding eq by auto
qed (auto split: prod.splits)

lemma normalize_distinct:
  "normalize H hs = (nodes, H') \<Longrightarrow> distinct (handler_addrs hs) \<Longrightarrow>
   \<forall>a \<in> set (handler_addrs hs). a < brk H \<Longrightarrow> distinct nodes"
proof (induction H hs arbitrary: nodes H' rule: normalize.induct)
  case (1 H)
  then show ?case by simp
next
  case (2 H a hs)
  obtain ns H2 where n2: "normalize H hs = (ns, H2)" by (cases "normalize H hs") auto
  with "2.prems" have eq: "nodes = a # ns" by auto
  from normalize_nodes[OF n2] "2.prems" have "a \<notin> set ns" by auto
  moreover from "2.IH"[OF n2] "2.prems" have "distinct ns" by simp
  ultimately show ?case unfolding eq by simp
next
  case (3 H t hs)
  obtain ns H2 where n2: "normalize (snd (alloc_handler H (InlineTransformHandler t))) hs = (ns, H2)"
    by (cases "normalize (snd (alloc_handler H (InlineTransformHandler t))) hs") auto
  with "3.prems" have eq: "nodes = brk H # ns"
    by (auto simp: alloc_handler_def split: prod.splits)
  from normalize_nodes[OF n2] "3.prems" have "brk H \<notin> set ns" by auto
  moreover from "3.IH"[of "brk H" "snd (alloc_handler H (InlineTransformHandler t))" ns H2] n2 "3.prems"
  have "distinct ns" by (auto simp: alloc_handler_def less_Suc_eq)
  ultimately show ?case unfolding eq by simp
qed

lemma normalize_transforms:
  "normalize H hs = (nodes, H') \<Longrightarrow> \<forall>a \<in> set (handler_addrs hs). a < brk H \<Longrightarrow>
   map (as_transform H') nodes = map (link_transform H) hs"
proof (induction H hs arbitrary: nodes H' rule: normalize.induct)
  case (1 H)
  then show ?case by simp
next
  case (2 H a hs)
  obtain ns H2 where n2: "normalize H hs = (ns, H2)" by (cases "normalize H hs") auto
  with "2.prems" have eq: "nodes = a # ns" "H' = H2" by auto
  from "2.prems" have "a < brk H" by simp
  from normalize_old[OF n2 this] have "as_transform H2 a = as_transform H a"
    by (simp add: as_transform_def)
  with "2.IH"[OF n2] "2.prems" show ?case unfolding eq by simp
next
  case (3 H t hs)
  let ?H1 = "snd (alloc_handler H (InlineTransformHandler t))"
  obtain ns H2 where n2: "normalize ?H1 hs = (ns, H2)" by (cases "normalize ?H1 hs") auto
  with "3.prems" have eq: "nodes = brk H # ns" "H' = H2"
    by (auto simp: alloc_handler_def split: prod.splits)
  have "node H2 (brk H) = InlineTransformHandler t"
    using normalize_old[OF n2, of "brk H"] by simp
  then have a: "as_transform H2 (brk H) = t"
    by (simp add: as_transform_def InlineTransformHandler_def)
  have "map (as_transform H2) ns = map (link_transform ?H1) hs"
    using "3.IH"[of "brk H" ?H1 ns H2] n2 "3.prems" by (auto simp: alloc_handler_def less_Suc_eq)
  moreover have "map (link_transform ?H1) hs = map (link_transform H) hs"
  proof (rule map_cong[OF refl])
    fix l assume "l \<in> set hs"
    show "link_transform ?H1 l = link_transform H l"
    proof (cases l)
      case (Handler b)
      with \<open>l \<in> set hs\<close> have "b \<in> set (handler_addrs hs)"
        by (induction hs rule: handler_addrs.induct) auto
      with "3.prems" have "b < brk H" by simp
      then show ?thesis using Handler by (simp add: as_transform_def)
    qed simp
  qed
  ultimately show ?case unfolding eq using a by simp
qed

lemma normalize_link_node:
  "normalize H hs = (nodes, H') \<Longrightarrow> \<forall>a \<in> set (handler_addrs hs). a < brk H \<Longrightarrow>
   map (node H') nodes = map (link_node H) hs"
proof (induction H hs arbitrary: nodes H' rule: normalize.induct)
  case (1 H)
  then show ?case by simp
next
  case (2 H a hs)
  obtain ns H2 where n2: "normalize H hs = (ns, H2)" by (cases "normalize H hs") auto
  with "2.prems" have eq: "nodes = a # ns" "H' = H2" by auto
  from "2.prems" have "a < brk H" by simp
  from normalize_old[OF n2 this] have "node H2 a = node H a" .
  with "2.IH"[OF n2] "2.prems" show ?case unfolding eq by simp
next
  case (3 H t hs)
  let ?H1 = "snd (alloc_handler H (InlineTransformHandler t))"
  obtain ns H2 where n2: "normalize ?H1 hs = (ns, H2)" by (cases "normalize ?H1 hs") auto
  with "3.prems" have eq: "nodes = brk H # ns" "H' = H2"
    by (auto simp: alloc_handler_def split: prod.splits)
  have a: "node H2 (brk H) = InlineTransformHandler t"
    using normalize_old[OF n2, of "brk H"] by simp
  have "map (node H2) ns = map (link_node ?H1) hs"
    using "3.IH"[of "brk H" ?H1 ns H2] n2 "3.prems" by (auto simp: alloc_handler_def less_Suc_eq)
  moreover have "map (link_node ?H1) hs = map (link_node H) hs"
  proof (rule map_cong[OF refl])
    fix l assume "l \<in> set hs"
    show "link_node ?H1 l = link_node H l"
    proof (cases l)
      case (Handler b)
      with \<open>l \<in> set hs\<close> have "b \<in> set (handler_addrs hs)"
        by (induction hs rule: handler_addrs.induct) auto
      with "3.prems" have "b < brk H" by simp
      then show ?thesis using Handler by simp
    qed simp
  qed
  ultimately show ?case unfolding eq using a by simp
qed

text \<open>
  \<open>from\<close> sets the \<open>nextHandler\<close> of every element but the last and the \<open>prevHandler\<close> of
  every element but the first. So a chain over pairwise distinct handler instances is
  symmetric when the first has no \<open>prevHandler\<close> and the last no \<open>nextHandler\<close> left from
  an earlier chain, and when it is no longer than the call stack is deep.
\<close>

lemma chain_from_symmetric:
  assumes wb: "\<forall>l \<in> set handlers. inverts (deserialize (link_transform H l)) (serialize (link_transform H l))"
      and dist: "distinct (handler_addrs handlers)"
      and lt: "\<forall>a \<in> set (handler_addrs handlers). a < brk H"
      and first: "prevHandler (link_node H (hd handlers)) = None"
      and final: "nextHandler (link_node H (last handlers)) = None"
      and stack: "length handlers \<le> stack"
      and ne: "handlers \<noteq> []"
  shows "\<exists>y. pipeline_apply (map (link_transform H) handlers) x = Some y \<and>
             chain_apply stack (snd (chain_from H handlers)) (fst (chain_from H handlers)) x = Done y \<and>
             chain_reverse stack (snd (chain_from H handlers)) (fst (chain_from H handlers)) y = Done x"
proof -
  obtain nodes H1 where n: "normalize H handlers = (nodes, H1)"
    by (cases "normalize H handlers") auto
  let ?H' = "link_all H1 nodes"
  have cf: "chain_from H handlers = (\<lparr>head = Some (hd nodes), tail = Some (last nodes)\<rparr>, ?H')"
    using ne n by (simp add: chain_from_def)
  have len: "length nodes = length handlers"
    using normalize_transforms[OF n lt] by (metis length_map)
  with ne have nne: "nodes \<noteq> []" by auto
  have d: "distinct nodes" by (rule normalize_distinct[OF n dist lt])
  have ch: "chained ?H' nodes" by (rule chained_link_all[OF d])
  have tr: "map (as_transform ?H') nodes = map (link_transform H) handlers"
  proof -
    have "as_transform ?H' = as_transform H1"
      by (rule ext) (simp add: as_transform_def)
    then show ?thesis using normalize_transforms[OF n lt] by simp
  qed
  note ln = normalize_link_node[OF n lt]
  have l1: "node H1 (last nodes) = link_node H (last handlers)"
    using arg_cong[OF ln, of last] nne ne by (simp add: last_map)
  have h1: "node H1 (hd nodes) = link_node H (hd handlers)"
    using arg_cong[OF ln, of hd] nne ne by (simp add: hd_map)
  obtain a as where nodes: "nodes = a # as" using nne by (cases nodes) auto
  obtain bs z where nodes': "nodes = bs @ [z]" using nne by (metis rev_exhaust)
  have "last nodes \<notin> set (butlast nodes)"
    using d unfolding nodes' by simp
  then have nl: "nextHandler (node ?H' (last nodes)) = None"
    using link_all_next[of "last nodes" nodes H1] l1 final by simp
  have "hd nodes \<notin> set (tl nodes)"
    using d unfolding nodes by simp
  then have ph: "prevHandler (node ?H' (hd nodes)) = None"
    using link_all_prev[of "hd nodes" nodes H1] h1 first by simp
  from wb have "\<forall>t \<in> set (map (link_transform H) handlers). inverts (deserialize t) (serialize t)"
    by simp
  from pipeline_symmetric[OF this, of x] obtain y where
    y: "pipeline_apply (map (link_transform H) handlers) x = Some y"
       "pipeline_reverse (map (link_transform H) handlers) y = Some x" by blast
  have "serialize_node stack ?H' (hd nodes) x = Done y"
    using serialize_chained[of ?H' a as stack x] ch nl stack len tr y(1) unfolding nodes by simp
  moreover
  have "deserialize_node stack ?H' (last nodes) y = Done x"
    using deserialize_chained[of ?H' bs z stack y] ch ph stack len tr y(2) unfolding nodes' by simp
  ultimately show ?thesis
    using y(1) by (simp add: cf chain_apply_def chain_reverse_def)
qed

text \<open>
  Both pipelines, under the condition on the chain: \<open>reverse(apply(x)) = x\<close>, with \<open>apply\<close>
  of the chain composing the links head to tail as the \<open>TransformPipeline\<close> does, and
  the empty pipeline and the empty chain the identity in both directions.
\<close>

lemma transform_symmetry:
  assumes pw: "\<forall>t \<in> set ts. inverts (deserialize t) (serialize t)"
      and wb: "\<forall>l \<in> set handlers. inverts (deserialize (link_transform H l)) (serialize (link_transform H l))"
      and dist: "distinct (handler_addrs handlers)"
      and lt: "\<forall>a \<in> set (handler_addrs handlers). a < brk H"
      and first: "handlers \<noteq> [] \<longrightarrow> prevHandler (link_node H (hd handlers)) = None"
      and final: "handlers \<noteq> [] \<longrightarrow> nextHandler (link_node H (last handlers)) = None"
      and stack: "length handlers \<le> stack"
  shows "(\<exists>y. pipeline_apply ts x = Some y \<and> pipeline_reverse ts y = Some x) \<and>
         (\<exists>y. pipeline_apply (map (link_transform H) handlers) x = Some y \<and>
              chain_apply stack (snd (chain_from H handlers)) (fst (chain_from H handlers)) x = Done y \<and>
              chain_reverse stack (snd (chain_from H handlers)) (fst (chain_from H handlers)) y = Done x) \<and>
         pipeline_apply [] x = Some x \<and> pipeline_reverse [] x = Some x \<and>
         chain_apply stack (snd (chain_from H [])) (fst (chain_from H [])) x = Done x \<and>
         chain_reverse stack (snd (chain_from H [])) (fst (chain_from H [])) x = Done x"
proof -
  have empty: "chain_apply stack (snd (chain_from H [])) (fst (chain_from H [])) x = Done x"
      "chain_reverse stack (snd (chain_from H [])) (fst (chain_from H [])) x = Done x"
    by (simp_all add: chain_from_def chain_apply_def chain_reverse_def)
  have chain: "\<exists>y. pipeline_apply (map (link_transform H) handlers) x = Some y \<and>
              chain_apply stack (snd (chain_from H handlers)) (fst (chain_from H handlers)) x = Done y \<and>
              chain_reverse stack (snd (chain_from H handlers)) (fst (chain_from H handlers)) y = Done x"
  proof (cases "handlers = []")
    case True
    with empty show ?thesis by simp
  next
    case False
    from chain_from_symmetric[OF wb dist lt _ _ stack False] first final False show ?thesis by blast
  qed
  from pipeline_symmetric[OF pw] chain empty show ?thesis by simp
qed

text \<open>
  C5. The claim fails for \<open>TransformChain\<close> on this run. Two handlers \<open>a\<close> and \<open>b\<close>, each
  appending a character forwards and removing the last character backwards, so each
  backward function inverts its forward function. After \<open>TransformChain.from([a, b])\<close>
  the chain \<open>c = TransformChain.from([b])\<close> has \<open>b\<close> as head and tail, and \<open>c.apply("x")\<close> is
  \<open>"xB"\<close>; but \<open>b.prevHandler\<close> is still \<open>a\<close>, so \<open>c.reverse("xB")\<close> runs \<open>b\<close> and then
  \<open>a\<close>, past the head of \<open>c\<close>, and returns the empty string instead of \<open>"x"\<close>. The
  \<open>TransformPipeline\<close> over the same link returns \<open>"x"\<close>.
\<close>

theorem chain_reverse_runs_past_head:
  "inverts (deserialize (suffix_link CHR ''A'')) (serialize (suffix_link CHR ''A'')) \<and>
   inverts (deserialize (suffix_link CHR ''B'')) (serialize (suffix_link CHR ''B'')) \<and>
   as_transform two_handlers 0 = suffix_link CHR ''A'' \<and>
   as_transform two_handlers 1 = suffix_link CHR ''B'' \<and>
   fst (chain_from (snd (chain_from two_handlers [Handler 0, Handler 1])) [Handler 1]) =
     \<lparr>head = Some 1, tail = Some 1\<rparr> \<and>
   chain_apply 2 (snd (chain_from (snd (chain_from two_handlers [Handler 0, Handler 1])) [Handler 1]))
      (fst (chain_from (snd (chain_from two_handlers [Handler 0, Handler 1])) [Handler 1])) ''x'' = Done ''xB'' \<and>
   chain_reverse 2 (snd (chain_from (snd (chain_from two_handlers [Handler 0, Handler 1])) [Handler 1]))
      (fst (chain_from (snd (chain_from two_handlers [Handler 0, Handler 1])) [Handler 1])) ''xB'' = Done [] \<and>
   pipeline_apply [suffix_link CHR ''B''] ''x'' = Some ''xB'' \<and>
   pipeline_reverse [suffix_link CHR ''B''] ''xB'' = Some ''x''"
proof -
  have inv: "inverts (deserialize (suffix_link c)) (serialize (suffix_link c))" for c
    by (simp add: inverts_def suffix_link_def)
  have tr: "as_transform two_handlers 0 = suffix_link CHR ''A''"
    "as_transform two_handlers 1 = suffix_link CHR ''B''"
    by (simp_all add: as_transform_def two_handlers_def suffix_handler_def InlineTransformHandler_def
        suffix_link_def)
  have run: "fst (chain_from (snd (chain_from two_handlers [Handler 0, Handler 1])) [Handler 1]) =
     \<lparr>head = Some 1, tail = Some 1\<rparr> \<and>
   chain_apply 2 (snd (chain_from (snd (chain_from two_handlers [Handler 0, Handler 1])) [Handler 1]))
      (fst (chain_from (snd (chain_from two_handlers [Handler 0, Handler 1])) [Handler 1])) ''x'' = Done ''xB'' \<and>
   chain_reverse 2 (snd (chain_from (snd (chain_from two_handlers [Handler 0, Handler 1])) [Handler 1]))
      (fst (chain_from (snd (chain_from two_handlers [Handler 0, Handler 1])) [Handler 1])) ''xB'' = Done []"
    by (simp add: chain_from_def chain_apply_def chain_reverse_def two_handlers_def suffix_handler_def
        suffix_link_def InlineTransformHandler_def setNext_def Let_def numeral_2_eq_2)
  have pl: "pipeline_apply [suffix_link CHR ''B''] ''x'' = Some ''xB''"
    "pipeline_reverse [suffix_link CHR ''B''] ''xB'' = Some ''x''"
    by (simp_all add: pipeline_apply_Cons pipeline_reverse_Cons suffix_link_def)
  from inv tr run pl show ?thesis by blast
qed

text \<open>
  The forward direction runs past the tail in the same way: after \<open>from([a, b])\<close> the
  chain \<open>from([a])\<close> applies \<open>a\<close> and then \<open>b\<close>, and reverses through \<open>a\<close> alone.
\<close>

lemma chain_apply_runs_past_tail:
  "chain_apply 2 (snd (chain_from (snd (chain_from two_handlers [Handler 0, Handler 1])) [Handler 0]))
      (fst (chain_from (snd (chain_from two_handlers [Handler 0, Handler 1])) [Handler 0])) ''x'' = Done ''xAB'' \<and>
   chain_reverse 2 (snd (chain_from (snd (chain_from two_handlers [Handler 0, Handler 1])) [Handler 0]))
      (fst (chain_from (snd (chain_from two_handlers [Handler 0, Handler 1])) [Handler 0])) ''xAB'' = Done ''xA''"
  by (simp add: chain_from_def chain_apply_def chain_reverse_def two_handlers_def suffix_handler_def
      suffix_link_def InlineTransformHandler_def setNext_def Let_def numeral_2_eq_2)

text \<open>
  Where the condition holds the chain is symmetric: a chain of one handler instance and
  one plain object, and the array \<open>[a, b]\<close> given to \<open>from\<close> a second time, which sets the
  same pointers again.
\<close>

lemma transform_symmetry_instances:
  "(\<exists>y. chain_apply 2 (snd (chain_from two_handlers [Handler 0, Plain (suffix_link CHR ''C'')]))
          (fst (chain_from two_handlers [Handler 0, Plain (suffix_link CHR ''C'')])) ''x'' = Done y \<and>
        chain_reverse 2 (snd (chain_from two_handlers [Handler 0, Plain (suffix_link CHR ''C'')]))
          (fst (chain_from two_handlers [Handler 0, Plain (suffix_link CHR ''C'')])) y = Done ''x'') \<and>
   (\<exists>y. chain_apply 2
          (snd (chain_from (snd (chain_from two_handlers [Handler 0, Handler 1])) [Handler 0, Handler 1]))
          (fst (chain_from (snd (chain_from two_handlers [Handler 0, Handler 1])) [Handler 0, Handler 1])) ''x'' = Done y \<and>
        chain_reverse 2
          (snd (chain_from (snd (chain_from two_handlers [Handler 0, Handler 1])) [Handler 0, Handler 1]))
          (fst (chain_from (snd (chain_from two_handlers [Handler 0, Handler 1])) [Handler 0, Handler 1])) y = Done ''x'')"
proof -
  have inv: "inverts (deserialize (suffix_link c)) (serialize (suffix_link c))" for c
    by (simp add: inverts_def suffix_link_def)
  let ?H = "snd (chain_from two_handlers [Handler 0, Handler 1])"
  have H: "snd (chain_from two_handlers [Handler 0, Handler (Suc 0)]) = setNext two_handlers 0 (Suc 0)"
    by (simp add: chain_from_def)
  have t0: "as_transform two_handlers 0 = suffix_link CHR ''A''"
    "as_transform two_handlers (Suc 0) = suffix_link CHR ''B''"
    by (simp_all add: as_transform_def two_handlers_def suffix_handler_def InlineTransformHandler_def
        suffix_link_def)
  have tH: "as_transform (setNext two_handlers 0 (Suc 0)) a = as_transform two_handlers a" for a
    by (simp add: as_transform_def)
  have a: "\<exists>y. pipeline_apply (map (link_transform two_handlers) [Handler 0, Plain (suffix_link CHR ''C'')]) ''x'' = Some y \<and>
        chain_apply 2 (snd (chain_from two_handlers [Handler 0, Plain (suffix_link CHR ''C'')]))
          (fst (chain_from two_handlers [Handler 0, Plain (suffix_link CHR ''C'')])) ''x'' = Done y \<and>
        chain_reverse 2 (snd (chain_from two_handlers [Handler 0, Plain (suffix_link CHR ''C'')]))
          (fst (chain_from two_handlers [Handler 0, Plain (suffix_link CHR ''C'')])) y = Done ''x''"
    by (rule chain_from_symmetric)
      (simp_all add: t0 inv two_handlers_def suffix_handler_def InlineTransformHandler_def)
  have b: "\<exists>y. pipeline_apply (map (link_transform ?H) [Handler 0, Handler 1]) ''x'' = Some y \<and>
        chain_apply 2 (snd (chain_from ?H [Handler 0, Handler 1]))
          (fst (chain_from ?H [Handler 0, Handler 1])) ''x'' = Done y \<and>
        chain_reverse 2 (snd (chain_from ?H [Handler 0, Handler 1]))
          (fst (chain_from ?H [Handler 0, Handler 1])) y = Done ''x''"
    by (rule chain_from_symmetric)
      (simp_all add: H tH t0 inv, simp_all add: setNext_def Let_def two_handlers_def suffix_handler_def
        InlineTransformHandler_def)
  from a b show ?thesis by blast
qed

text \<open>
  The same instance given twice to \<open>from\<close> becomes its own successor, and \<open>apply\<close> ends in
  the \<open>RangeError\<close> of the host, however deep the stack.
\<close>

lemma chain_of_one_instance_twice_overflows:
  "chain_apply stack (snd (chain_from two_handlers [Handler 0, Handler 0]))
      (fst (chain_from two_handlers [Handler 0, Handler 0])) x = StackOverflow"
proof -
  let ?H = "snd (chain_from two_handlers [Handler 0, Handler 0])"
  have n: "nextHandler (node ?H 0) = Some 0" "process (node ?H 0) = (\<lambda>x. Some (x @ ''A''))"
    by (simp_all add: chain_from_def two_handlers_def setNext_def Let_def suffix_handler_def
        suffix_link_def InlineTransformHandler_def)
  have "serialize_node stack ?H 0 x = StackOverflow" for x
    by (induction stack arbitrary: x) (simp_all add: n)
  then show ?thesis by (simp add: chain_from_def chain_apply_def)
qed

section \<open>Properties of the vault engine\<close>

subsection \<open>Basic facts about the operations\<close>

lemma returning_simps [simp]:
  "returning r (None, s) = (Inr r, s)"
  "returning r (Some e, s) = (Inl e, s)"
  by (simp_all add: returning_def)

lemma fst_returning:
  "fst (returning r res) = (case fst res of None \<Rightarrow> Inr r | Some e \<Rightarrow> Inl e)"
  by (cases res) (auto simp: returning_def split: option.splits)

lemma snd_returning [simp]: "snd (returning r res) = snd res"
  by (cases res) (auto simp: returning_def split: option.splits)

lemma validateKey_available: "validateKey key st = None \<Longrightarrow> st \<noteq> None"
  by (auto simp: validateKey_def split: if_splits)

lemma js_get_own [simp]: "map_of data key = Some i \<Longrightarrow> js_get proto data key = Own i"
  by (simp add: js_get_def)

lemma js_get_missing [simp]:
  "map_of data key = None \<Longrightarrow> proto key = None \<Longrightarrow> js_get proto data key = Missing"
  by (simp add: js_get_def)

lemma js_get_inherited [simp]:
  "map_of data key = None \<Longrightarrow> proto key = Some m \<Longrightarrow> js_get proto data key = Inherited m"
  by (simp add: js_get_def)

lemma js_in_own [simp]: "map_of data key = Some i \<Longrightarrow> js_in proto data key"
  by (simp add: js_in_def)

lemma js_in_missing [simp]:
  "map_of data key = None \<Longrightarrow> proto key = None \<Longrightarrow> \<not> js_in proto data key"
  by (simp add: js_in_def)

lemma getAllData_dirty:
  "storage s \<noteq> None \<Longrightarrow> dirtyData s = Some d \<Longrightarrow> getAllData cfg s = (d, s)"
  by (auto simp add: getAllData_def)

lemma getAllData_holds: "holds cfg s data \<Longrightarrow> getAllData cfg s = (data, s)"
  by (auto simp: holds_def getAllData_def storage_read_def split: option.splits)

lemma holds_available: "holds cfg s data \<Longrightarrow> storage s \<noteq> None"
  by (auto simp: holds_def split: option.splits)

lemma saveAllData_debounced:
  "debounceMs cfg > 0 \<Longrightarrow>
   saveAllData cfg now data s =
     (None, s\<lparr>pendingSave := Some (next_timer s), dirtyData := Some data,
              timers := (case pendingSave s of Some t \<Rightarrow> removeAll t (timers s) | None \<Rightarrow> timers s) @ [next_timer s],
              next_timer := Suc (next_timer s)\<rparr>)"
  by (simp add: saveAllData_def Let_def setTimeout_def clearTimeout_def split: option.splits)

lemma map_of_delete_self [simp]: "map_of (AList.delete k d) k = None"
  by (simp add: delete_conv')

lemma getAllData_fields [simp]:
  "dirtyData (snd (getAllData cfg s)) = dirtyData s"
  "pendingSave (snd (getAllData cfg s)) = pendingSave s"
  "timers (snd (getAllData cfg s)) = timers s"
  "next_timer (snd (getAllData cfg s)) = next_timer s"
  "object_prototype (snd (getAllData cfg s)) = object_prototype s"
  by (simp_all add: getAllData_def split: option.splits)

lemma storage_remove_available:
  "(snd (storage_remove st k) = None) = (st = None)"
  by (simp add: storage_remove_def split: option.splits)

lemma getAllData_available [simp]:
  "(storage (snd (getAllData cfg s)) = None) = (storage s = None)"
  by (simp add: getAllData_def storage_remove_available split: option.splits)

lemma getAllData_unavailable: "storage s = None \<Longrightarrow> getAllData cfg s = ([], s)"
  by (simp add: getAllData_def)

lemma getAllData_idem:
  "fst (getAllData cfg (snd (getAllData cfg s))) = fst (getAllData cfg s)"
proof (cases "storage s")
  case None
  then show ?thesis by (simp add: getAllData_def)
next
  case (Some b)
  show ?thesis
  proof (cases "dirtyData s")
    case (Some d)
    then show ?thesis using \<open>storage s = Some b\<close> by (simp add: getAllData_def)
  next
    case None
    then show ?thesis using \<open>storage s = Some b\<close>
      by (auto simp: getAllData_def storage_read_def storage_remove_def split: option.splits)
  qed
qed

lemma getAllData_snd_idem:
  "getAllData cfg s = (data, s1) \<Longrightarrow> fst (getAllData cfg s1) = data"
  using getAllData_idem[of cfg s] by simp

lemma serialize_and_write_fields [simp]:
  "dirtyData (snd (serialize_and_write cfg d s)) = dirtyData s"
  "pendingSave (snd (serialize_and_write cfg d s)) = pendingSave s"
  "timers (snd (serialize_and_write cfg d s)) = timers s"
  "next_timer (snd (serialize_and_write cfg d s)) = next_timer s"
  "object_prototype (snd (serialize_and_write cfg d s)) = object_prototype s"
  by (simp_all add: serialize_and_write_def split: sum.splits prod.splits)

lemma serialize_and_write_ok:
  assumes "storage s = Some b" "fst (serialize_and_write cfg d s) = None"
  shows "\<exists>p. encode cfg d = Some p \<and>
             snd (serialize_and_write cfg d s) =
               s\<lparr>storage := Some (b\<lparr>entries := (entries b)(storageKey cfg \<mapsto> p),
                                      attempts := Suc (attempts b),
                                      written := written b @ [(storageKey cfg, p)]\<rparr>)\<rparr>"
  using assms
  by (auto simp: serialize_and_write_def encode_def storage_write_def split: sum.splits if_splits)

lemma saveAllDataImmediate_ok:
  assumes "storage s = Some b" "fst (serialize_and_write cfg (limit_items cfg b data) s) = None"
  shows "saveAllDataImmediate cfg now data s =
           (None, limit_items cfg b data, snd (serialize_and_write cfg (limit_items cfg b data) s))"
  using assms by (simp add: saveAllDataImmediate.simps Let_def)

lemma foldl_delete_map_of:
  "map_of (foldl (\<lambda>d k. AList.delete k d) data ks) k =
     (if k \<in> set ks then None else map_of data k)"
  by (induction ks arbitrary: data) (auto simp: delete_conv')

lemma enforceItemLimit_None:
  "map_of data k = None \<Longrightarrow> map_of (enforceItemLimit cfg data) k = None"
  by (simp add: enforceItemLimit_def Let_def foldl_delete_map_of)

lemma limit_items_None:
  "map_of data k = None \<Longrightarrow> map_of (limit_items cfg b data) k = None"
  by (simp add: limit_items_def enforceItemLimit_None)

lemma getItem_absent:
  "validateKey key (storage s) = None \<Longrightarrow> map_of (fst (getAllData cfg s)) key = None \<Longrightarrow>
   object_prototype s key = None \<Longrightarrow> fst (getItem cfg now key s) = Inr Null"
  by (cases "getAllData cfg s") (use getAllData_fields(5)[of cfg s] in \<open>simp add: getItem_def\<close>)

lemma getItem_on_expired:
  assumes "getAllData cfg s = (data, s1)" "map_of data key = Some item" "expiry item = Some e" "e < now"
  shows "getItem cfg now key s =
      (case validateKey key (storage s) of Some err \<Rightarrow> (Inl err, s)
       | None \<Rightarrow> returning Null (saveAllData cfg now (AList.delete key data) s1))"
  using assms by (simp add: getItem_def removeIfExpired_def isExpired_def split: option.splits)

lemma hasItem_on_expired:
  assumes "getAllData cfg s = (data, s1)" "map_of data key = Some item" "expiry item = Some e" "e < now"
  shows "hasItem cfg now key s =
      (case validateKey key (storage s) of Some err \<Rightarrow> (Inl err, s)
       | None \<Rightarrow> returning False (saveAllData cfg now (AList.delete key data) s1))"
  using assms by (simp add: hasItem_def removeIfExpired_def isExpired_def split: option.splits)

lemma getRemainingTTL_on_expired:
  assumes "storage s \<noteq> None" "getAllData cfg s = (data, s1)" "map_of data key = Some item"
    "expiry item = Some e" "e < now"
  shows "getRemainingTTL cfg now key s =
      returning None (saveAllData cfg now (AList.delete key data) s1)"
  using assms by (simp add: getRemainingTTL_def isAvailable_def Let_def)

lemma removeItem_present:
  assumes "validateKey key (storage s) = None" "getAllData cfg s = (data, s1)" "map_of data key = Some item"
  shows "removeItem cfg now key s = returning True (saveAllData cfg now (AList.delete key data) s1)"
  using assms by (simp add: removeItem_def)

lemma removeItem_absent:
  assumes "validateKey key (storage s) = None" "getAllData cfg s = (data, s1)" "map_of data key = None"
    "object_prototype s key = None"
  shows "removeItem cfg now key s = (Inr False, s1)"
  using assms getAllData_fields(5)[of cfg s] by (simp add: removeItem_def)

lemma saveAllData_immediate_ok:
  assumes "\<not> debounceMs cfg > 0" "storage s = Some b"
    "fst (serialize_and_write cfg (limit_items cfg b data) s) = None"
  shows "saveAllData cfg now data s = (None, snd (serialize_and_write cfg (limit_items cfg b data) s))"
  using assms by (simp add: saveAllData_def saveAllDataImmediate_ok)

lemma valid_k: "validateKey ''k'' (Some b) = None"
  by (simp add: validateKey_def trim_is_empty_def js_whitespace_def DANGEROUS_KEYS_def)

lemma valid_old: "validateKey ''old'' (Some b) = None"
  by (simp add: validateKey_def trim_is_empty_def js_whitespace_def DANGEROUS_KEYS_def)

lemma standard_prototype_simps [simp]:
  "standard_prototype ''k'' = None"
  "standard_prototype ''old'' = None"
  "standard_prototype [] = None"
  "standard_prototype ''toString'' = Some \<lparr>member_value = None, member_expiry = None\<rparr>"
  "standard_prototype ''__proto__'' = Some \<lparr>member_value = None, member_expiry = None\<rparr>"
  by (simp_all add: standard_prototype_def OBJECT_PROTOTYPE_KEYS_def)

lemma demo_cfg_simps [simp]:
  "storageKey (demo_cfg ms) = ''APP_DATA''"
  "maxItemsInMemory (demo_cfg ms) = 1000"
  "debounceMs (demo_cfg ms) = ms"
  "transform_apply (demo_cfg ms) = Inr"
  "transform_reverse (demo_cfg ms) = Some"
  "json_stringify (demo_cfg ms) = demo_stringify"
  "json_parse (demo_cfg ms) = demo_parse"
  by (simp_all add: demo_cfg_def)

lemmas demo_defs = demo_vault_def constructed_def demo_backend_def demo_stringify_def demo_entry_def
  demo_parse_def demo_records_def

lemmas op_defs = setItem_def getItem_def removeItem_def hasItem_def getRemainingTTL_def getAllKeys_def
  getAll_def getAllData_def saveAllData_def setTimeout_def clearTimeout_def storage_read_def
  storage_write_def storage_remove_def serialize_and_write_def decode_def encode_def limit_items_def
  fire_timer_def timer_callback_def save_dirty_def removeIfExpired_def isExpired_def isAvailable_def
  writes_of_def two_writes_def flush_def cancel_pending_def js_get_def js_in_def

lemmas save_simps = saveAllDataImmediate.simps handleSaveError.simps cleanupExpiredItems.simps

lemma replicate_5: "replicate 5 c = [c, c, c, c, c]"
  by (simp add: eval_nat_numeral)

subsection \<open>Expired items and the reads\<close>

text \<open>
  What the three keyed reads do with an item of the record set that has expired: they
  delete it and save, and return absent unless the save throws.
\<close>

lemma reads_on_expired:
  assumes h: "holds cfg s data"
      and item: "map_of data key = Some item"
      and e: "expiry item = Some e" "e < now"
  shows "getItem cfg now key s =
           (case validateKey key (storage s) of Some err \<Rightarrow> (Inl err, s)
            | None \<Rightarrow> returning Null (saveAllData cfg now (AList.delete key data) s))"
    and "hasItem cfg now key s =
           (case validateKey key (storage s) of Some err \<Rightarrow> (Inl err, s)
            | None \<Rightarrow> returning False (saveAllData cfg now (AList.delete key data) s))"
    and "getRemainingTTL cfg now key s =
           returning None (saveAllData cfg now (AList.delete key data) s)"
  using getItem_on_expired[OF getAllData_holds[OF h] item e]
    hasItem_on_expired[OF getAllData_holds[OF h] item e]
    getRemainingTTL_on_expired[OF holds_available[OF h] getAllData_holds[OF h] item e]
  by simp_all

lemma getAll_excludes:
  assumes nl: "\<not> live now item" and item: "map_of data key = Some item"
      and acc: "key \<notin> fst ` set acc"
  shows "key \<notin> fst ` set (foldl (\<lambda>result k.
                       case map_of data k of
                         None \<Rightarrow> result
                       | Some i \<Rightarrow>
                           if live now i \<and> k \<noteq> ''__proto__'' then AList.update k (stored_value i) result
                           else result) acc ks)"
  using acc
proof (induction ks arbitrary: acc)
  case Nil
  then show ?case by simp
next
  case (Cons k ks)
  show ?case
  proof (cases "k = key")
    case True
    then show ?thesis using Cons nl item by simp
  next
    case False
    then show ?thesis using Cons
      by (auto split: option.splits simp: dom_update intro!: Cons.IH)
  qed
qed




subsection \<open>Removal does not look at the expiry\<close>

text \<open>
  C10 (as amended). Let the engine hold a record set in which a valid \<open>key\<close> has an
  expiry strictly before \<open>now\<close>. \<open>removeItem\<close> does not look at the expiry: it deletes the
  key from the record set and saves; it returns true when that save does not throw, and
  otherwise throws its error. With a positive debounce the save does not throw, and the
  engine then holds the record set without the key, nothing written yet. With immediate
  writes the save does not throw when the store accepts the write, and the store then
  holds the encoding of the record set without the key. On the same state \<open>getItem\<close> and
  \<open>hasItem\<close> return absent and false under the same condition.
\<close>

theorem removeItem_ignores_expiry:
  assumes valid: "validateKey key (storage s) = None"
      and h: "holds cfg s data"
      and item: "map_of data key = Some item"
      and e: "expiry item = Some e" "e < now"
  shows "fst (removeItem cfg now key s) =
           (case fst (saveAllData cfg now (AList.delete key data) s) of
              None \<Rightarrow> Inr True | Some err \<Rightarrow> Inl err) \<and>
         fst (getItem cfg now key s) =
           (case fst (saveAllData cfg now (AList.delete key data) s) of
              None \<Rightarrow> Inr Null | Some err \<Rightarrow> Inl err) \<and>
         fst (hasItem cfg now key s) =
           (case fst (saveAllData cfg now (AList.delete key data) s) of
              None \<Rightarrow> Inr False | Some err \<Rightarrow> Inl err) \<and>
         map_of (AList.delete key data) key = None \<and>
         (debounceMs cfg > 0 \<longrightarrow>
            fst (removeItem cfg now key s) = Inr True \<and>
            holds cfg (snd (removeItem cfg now key s)) (AList.delete key data) \<and>
            writes_of (snd (removeItem cfg now key s)) = writes_of s) \<and>
         (\<forall>b. \<not> debounceMs cfg > 0 \<and> storage s = Some b \<and>
               fst (serialize_and_write cfg (limit_items cfg b (AList.delete key data)) s) = None \<longrightarrow>
               fst (removeItem cfg now key s) = Inr True \<and>
               map_of (limit_items cfg b (AList.delete key data)) key = None \<and>
               storage_read (storage (snd (removeItem cfg now key s))) (storageKey cfg) =
                 encode cfg (limit_items cfg b (AList.delete key data)) \<and>
               writes_of (snd (removeItem cfg now key s)) =
                 writes_of s @ [(storageKey cfg, the (encode cfg (limit_items cfg b (AList.delete key data))))])"
proof -
  note g = getAllData_holds[OF h]
  note r = reads_on_expired[OF h item e]
  have rm: "removeItem cfg now key s = returning True (saveAllData cfg now (AList.delete key data) s)"
    by (rule removeItem_present[OF valid g item])
  have 1: "fst (removeItem cfg now key s) =
           (case fst (saveAllData cfg now (AList.delete key data) s) of
              None \<Rightarrow> Inr True | Some err \<Rightarrow> Inl err)"
    by (simp add: rm fst_returning)
  have 2: "fst (getItem cfg now key s) =
           (case fst (saveAllData cfg now (AList.delete key data) s) of
              None \<Rightarrow> Inr Null | Some err \<Rightarrow> Inl err)"
    by (simp add: r(1) valid fst_returning)
  have 3: "fst (hasItem cfg now key s) =
           (case fst (saveAllData cfg now (AList.delete key data) s) of
              None \<Rightarrow> Inr False | Some err \<Rightarrow> Inl err)"
    by (simp add: r(2) valid fst_returning)
  have 4: "map_of (AList.delete key data) key = None" by simp
  have 5: "debounceMs cfg > 0 \<longrightarrow>
            fst (removeItem cfg now key s) = Inr True \<and>
            holds cfg (snd (removeItem cfg now key s)) (AList.delete key data) \<and>
            writes_of (snd (removeItem cfg now key s)) = writes_of s"
    using holds_available[OF h]
    by (auto simp: rm saveAllData_debounced holds_def writes_of_def split: option.splits)
  have 6: "fst (removeItem cfg now key s) = Inr True \<and>
           map_of (limit_items cfg b (AList.delete key data)) key = None \<and>
           storage_read (storage (snd (removeItem cfg now key s))) (storageKey cfg) =
             encode cfg (limit_items cfg b (AList.delete key data)) \<and>
           writes_of (snd (removeItem cfg now key s)) =
             writes_of s @ [(storageKey cfg, the (encode cfg (limit_items cfg b (AList.delete key data))))]"
    if nd: "\<not> debounceMs cfg > 0" and st: "storage s = Some b"
      and w: "fst (serialize_and_write cfg (limit_items cfg b (AList.delete key data)) s) = None" for b
  proof -
    let ?d = "limit_items cfg b (AList.delete key data)"
    from serialize_and_write_ok[OF st w] obtain p where p: "encode cfg ?d = Some p"
      "snd (serialize_and_write cfg ?d s) =
               s\<lparr>storage := Some (b\<lparr>entries := (entries b)(storageKey cfg \<mapsto> p),
                                      attempts := Suc (attempts b),
                                      written := written b @ [(storageKey cfg, p)]\<rparr>)\<rparr>"
      by blast
    have sv: "saveAllData cfg now (AList.delete key data) s = (None, snd (serialize_and_write cfg ?d s))"
      by (rule saveAllData_immediate_ok[OF nd st w])
    have "map_of ?d key = None" by (simp add: limit_items_None)
    then show ?thesis using st p by (simp add: rm sv storage_read_def writes_of_def)
  qed
  from 1 2 3 4 5 6 show ?thesis by blast
qed

text \<open>
  The theorem at the engine whose buffer holds the expired item (debounce 100) and at
  the engine with immediate writes whose store holds it and accepts the write.
\<close>

theorem removeItem_ignores_expiry_witness:
  "fst (hasItem (demo_cfg 100) 10 ''k'' expired_in_buffer) = Inr False \<and>
   fst (removeItem (demo_cfg 100) 10 ''k'' expired_in_buffer) = Inr True \<and>
   holds (demo_cfg 100) (snd (removeItem (demo_cfg 100) 10 ''k'' expired_in_buffer)) [] \<and>
   fst (hasItem (demo_cfg 0) 10 ''old'' expired_in_store) = Inr False \<and>
   fst (removeItem (demo_cfg 0) 10 ''old'' expired_in_store) = Inr True \<and>
   storage_read (storage (snd (removeItem (demo_cfg 0) 10 ''old'' expired_in_store))) ''APP_DATA'' = Some ''{}''"
proof -
  have h1: "holds (demo_cfg 100) expired_in_buffer [(''k'', \<lparr>stored_value = ''v'', expiry = Some 5\<rparr>)]"
    by (simp add: holds_def expired_in_buffer_def demo_defs)
  have i1: "map_of [(''k'', \<lparr>stored_value = ''v'', expiry = Some (5::int)\<rparr>)] ''k'' =
             Some \<lparr>stored_value = ''v'', expiry = Some 5\<rparr>" by simp
  have e: "expiry \<lparr>stored_value = ''v'', expiry = Some (5::int)\<rparr> = Some 5" "(5::int) < 10" by simp_all
  have v1: "validateKey ''k'' (storage expired_in_buffer) = None"
    by (simp add: expired_in_buffer_def demo_defs valid_k)
  have d1: "debounceMs (demo_cfg 100) > 0" by simp
  note t1 = removeItem_ignores_expiry[OF v1 h1 i1 e]
  have s1: "fst (saveAllData (demo_cfg 100) 10
      (AList.delete ''k'' [(''k'', \<lparr>stored_value = ''v'', expiry = Some 5\<rparr>)]) expired_in_buffer) = None"
    by (simp add: saveAllData_debounced)
  have a: "fst (hasItem (demo_cfg 100) 10 ''k'' expired_in_buffer) = Inr False \<and>
   fst (removeItem (demo_cfg 100) 10 ''k'' expired_in_buffer) = Inr True \<and>
   holds (demo_cfg 100) (snd (removeItem (demo_cfg 100) 10 ''k'' expired_in_buffer)) []"
    using t1 d1 by (simp only: s1 option.case) simp
  let ?b = "demo_backend WebStorage (Some ''{old=a@11111;}'') (\<lambda>n v. False)"
  have h2: "holds (demo_cfg 0) expired_in_store [(''old'', \<lparr>stored_value = ''a'', expiry = Some 5\<rparr>)]"
    by (simp add: holds_def expired_in_store_def demo_defs decode_def replicate_5)
  have i2: "map_of [(''old'', \<lparr>stored_value = ''a'', expiry = Some (5::int)\<rparr>)] ''old'' =
             Some \<lparr>stored_value = ''a'', expiry = Some 5\<rparr>" by simp
  have e2: "expiry \<lparr>stored_value = ''a'', expiry = Some (5::int)\<rparr> = Some 5" by simp
  have st2: "storage expired_in_store = Some ?b" by (simp add: expired_in_store_def demo_defs)
  have v2: "validateKey ''old'' (storage expired_in_store) = None"
    by (simp add: st2 valid_old)
  have d2: "\<not> debounceMs (demo_cfg 0) > 0" by simp
  have li: "limit_items (demo_cfg 0) ?b (AList.delete ''old'' [(''old'', \<lparr>stored_value = ''a'', expiry = Some 5\<rparr>)]) = []"
    by (simp add: limit_items_def demo_backend_def)
  have w2: "fst (serialize_and_write (demo_cfg 0)
               (limit_items (demo_cfg 0) ?b (AList.delete ''old'' [(''old'', \<lparr>stored_value = ''a'', expiry = Some 5\<rparr>)]))
               expired_in_store) = None"
    unfolding li by (simp add: serialize_and_write_def storage_write_def expired_in_store_def demo_defs)
  have en: "encode (demo_cfg 0) [] = Some ''{}''" by (simp add: encode_def demo_defs)
  note t2 = removeItem_ignores_expiry[OF v2 h2 i2 e2 e(2)]
  have s2: "fst (saveAllData (demo_cfg 0) 10
      (AList.delete ''old'' [(''old'', \<lparr>stored_value = ''a'', expiry = Some 5\<rparr>)]) expired_in_store) = None"
    using saveAllData_immediate_ok[OF d2 st2 w2] by simp
  from t2 have "fst (hasItem (demo_cfg 0) 10 ''old'' expired_in_store) =
           (case fst (saveAllData (demo_cfg 0) 10
              (AList.delete ''old'' [(''old'', \<lparr>stored_value = ''a'', expiry = Some 5\<rparr>)]) expired_in_store) of
              None \<Rightarrow> Inr False | Some err \<Rightarrow> Inl err)" by blast
  then have b1: "fst (hasItem (demo_cfg 0) 10 ''old'' expired_in_store) = Inr False"
    by (simp only: s2 option.case)
  from t2 d2 st2 w2 have "fst (removeItem (demo_cfg 0) 10 ''old'' expired_in_store) = Inr True \<and>
     storage_read (storage (snd (removeItem (demo_cfg 0) 10 ''old'' expired_in_store))) (storageKey (demo_cfg 0)) =
       encode (demo_cfg 0) (limit_items (demo_cfg 0) ?b
          (AList.delete ''old'' [(''old'', \<lparr>stored_value = ''a'', expiry = Some 5\<rparr>)]))"
    by blast
  then have b2: "fst (removeItem (demo_cfg 0) 10 ''old'' expired_in_store) = Inr True \<and>
     storage_read (storage (snd (removeItem (demo_cfg 0) 10 ''old'' expired_in_store))) ''APP_DATA'' = Some ''{}''"
    by (simp only: li en demo_cfg_simps)
  from a b1 b2 show ?thesis by blast
qed

text \<open>
  The claim as stated fails where the save throws. On the engine with immediate writes
  whose store holds the expired item and rejects every write, \<open>removeItem\<close> throws the
  quota error and the entry stays in the store.
\<close>

theorem removeItem_ignores_expiry_counterexample:
  "validateKey ''old'' (storage stuck_vault) = None \<and>
   holds (demo_cfg 0) stuck_vault [(''old'', \<lparr>stored_value = ''a'', expiry = Some 5\<rparr>)] \<and>
   fst (removeItem (demo_cfg 0) 10 ''old'' stuck_vault) = Inl QuotaExceeded \<and>
   storage_read (storage (snd (removeItem (demo_cfg 0) 10 ''old'' stuck_vault))) ''APP_DATA'' =
     Some ''{old=a@11111;}'' \<and>
   holds (demo_cfg 0) (snd (removeItem (demo_cfg 0) 10 ''old'' stuck_vault))
     [(''old'', \<lparr>stored_value = ''a'', expiry = Some 5\<rparr>)]"
  by (simp add: holds_def op_defs demo_defs stuck_vault_def save_simps valid_old Let_def replicate_5)

subsection \<open>More facts about the operations\<close>

lemma validateKey_cong_avail:
  "(st = None) = (st' = None) \<Longrightarrow> validateKey key st = validateKey key st'"
  by (simp add: validateKey_def)

lemma storage_write_available:
  "(snd (storage_write st k v) = None) = (st = None)"
  by (simp add: storage_write_def split: option.splits)

lemma serialize_and_write_available [simp]:
  "(storage (snd (serialize_and_write cfg d s)) = None) = (storage s = None)"
  by (auto simp: serialize_and_write_def storage_write_def split: sum.splits option.splits prod.splits if_splits)

lemma saveAllData_debounced_storage:
  "debounceMs cfg > 0 \<Longrightarrow> storage (snd (saveAllData cfg now data s)) = storage s"
  by (simp add: saveAllData_debounced)

lemma setItem_ttl_zero: "setItem cfg now key v (Some (Finite 0)) s = removeItem cfg now key s"
  by (simp add: setItem_def removeItem_def split: option.splits)

lemma setItem_stores:
  assumes "validateKey key (storage s) = None" "ttl = None \<or> (\<exists>t. ttl = Some (Finite t) \<and> 0 < t)"
  shows "setItem cfg now key v ttl s =
           returning True (saveAllData cfg now
              (AList.update key \<lparr>stored_value = v,
                 expiry = (case ttl of Some (Finite t) \<Rightarrow> Some (now + t) | _ \<Rightarrow> None)\<rparr>
                 (fst (getAllData cfg s))) (snd (getAllData cfg s)))"
  using assms by (cases "getAllData cfg s") (auto simp: setItem_def Let_def)

lemma setItem_invalid_ttl:
  assumes "\<not> isFinite n \<or> less_than_zero n"
  shows "setItem cfg now key v (Some n) s =
           (case validateKey key (storage s) of Some e \<Rightarrow> (Inl e, s) | None \<Rightarrow> (Inl InvalidTTL, s))"
  using assms by (auto simp: setItem_def split: option.splits)

lemma removeItem_result:
  assumes valid: "validateKey key (storage s) = None"
  shows "removeItem cfg now key s =
           (if js_in (object_prototype s) (fst (getAllData cfg s)) key
            then returning True
                   (saveAllData cfg now (AList.delete key (fst (getAllData cfg s))) (snd (getAllData cfg s)))
            else (Inr False, snd (getAllData cfg s)))"
  using valid by (cases "getAllData cfg s") (use getAllData_fields(5)[of cfg s] in \<open>simp add: removeItem_def\<close>)

lemma saveAllData_debounced_prototype:
  "debounceMs cfg > 0 \<Longrightarrow> object_prototype (snd (saveAllData cfg now data s)) = object_prototype s"
  by (simp add: saveAllData_debounced)

lemma removeItem_then_getItem_debounced:
  assumes valid: "validateKey key (storage s) = None" and deb: "debounceMs cfg > 0"
      and np: "object_prototype s key = None"
  shows "fst (getItem cfg now' key (snd (removeItem cfg now key s))) = Inr Null"
proof -
  obtain data s1 where g: "getAllData cfg s = (data, s1)" by (cases "getAllData cfg s") auto
  have av: "storage s1 \<noteq> None"
    using validateKey_available[OF valid] g getAllData_available[of cfg s] by auto
  have v1: "validateKey key (storage s1) = None"
    using valid av validateKey_cong_avail[of "storage s1" "storage s" key]
      validateKey_available[OF valid] by simp
  have np1: "object_prototype s1 key = None" using np g getAllData_fields(5)[of cfg s] by simp
  show ?thesis
  proof (cases "map_of data key")
    case None
    have "fst (getItem cfg now' key s1) = Inr Null"
      by (rule getItem_absent[OF v1 _ np1]) (simp add: getAllData_snd_idem[OF g] None)
    then show ?thesis using removeItem_absent[OF valid g None np] by simp
  next
    case (Some item)
    let ?s2 = "snd (saveAllData cfg now (AList.delete key data) s1)"
    have rm: "removeItem cfg now key s = returning True (saveAllData cfg now (AList.delete key data) s1)"
      by (rule removeItem_present[OF valid g Some])
    have st2: "storage ?s2 = storage s1" by (rule saveAllData_debounced_storage[OF deb])
    have d2: "dirtyData ?s2 = Some (AList.delete key data)" using deb by (simp add: saveAllData_debounced)
    have np2: "object_prototype ?s2 key = None" using np1 saveAllData_debounced_prototype[OF deb] by simp
    have g2: "getAllData cfg ?s2 = (AList.delete key data, ?s2)"
      by (rule getAllData_dirty) (simp_all add: st2 av d2)
    have "fst (getItem cfg now' key ?s2) = Inr Null"
      by (rule getItem_absent[OF _ _ np2]) (simp_all add: st2 v1 g2)
    then show ?thesis using rm by simp
  qed
qed

lemma removeItem_then_getItem_immediate:
  assumes valid: "validateKey key (storage s) = None" and nd: "\<not> debounceMs cfg > 0"
      and np: "object_prototype s key = None"
      and w: "map_of (fst (getAllData cfg s)) key \<noteq> None \<longrightarrow>
                (\<exists>b. storage (snd (getAllData cfg s)) = Some b \<and>
                     write_reads_back cfg (snd (getAllData cfg s))
                       (limit_items cfg b (AList.delete key (fst (getAllData cfg s)))))"
  shows "fst (getItem cfg now' key (snd (removeItem cfg now key s))) = Inr Null"
proof -
  obtain data s1 where g: "getAllData cfg s = (data, s1)" by (cases "getAllData cfg s") auto
  have av: "storage s1 \<noteq> None"
    using validateKey_available[OF valid] g getAllData_available[of cfg s] by auto
  have v1: "validateKey key (storage s1) = None"
    using valid av validateKey_cong_avail[of "storage s1" "storage s" key]
      validateKey_available[OF valid] by simp
  have np1: "object_prototype s1 key = None" using np g getAllData_fields(5)[of cfg s] by simp
  show ?thesis
  proof (cases "map_of data key")
    case None
    have "fst (getItem cfg now' key s1) = Inr Null"
      by (rule getItem_absent[OF v1 _ np1]) (simp add: getAllData_snd_idem[OF g] None)
    then show ?thesis using removeItem_absent[OF valid g None np] by simp
  next
    case (Some item)
    from w g Some obtain b where b: "storage s1 = Some b"
      and wr: "write_reads_back cfg s1 (limit_items cfg b (AList.delete key data))" by auto
    let ?d = "limit_items cfg b (AList.delete key data)"
    let ?s2 = "snd (serialize_and_write cfg ?d s1)"
    from wr have ok: "fst (serialize_and_write cfg ?d s1) = None" and rb: "fst (getAllData cfg ?s2) = ?d"
      by (simp_all add: write_reads_back_def)
    have rm: "removeItem cfg now key s = (Inr True, ?s2)"
      using removeItem_present[OF valid g Some] saveAllData_immediate_ok[OF nd b ok] by simp
    have v2: "validateKey key (storage ?s2) = None"
      using v1 av validateKey_cong_avail[of "storage ?s2" "storage s1" key] by simp
    have np2: "object_prototype ?s2 key = None" using np1 by simp
    have "fst (getItem cfg now' key ?s2) = Inr Null"
      by (rule getItem_absent[OF v2 _ np2]) (simp add: rb limit_items_None)
    then show ?thesis by (simp add: rm)
  qed
qed

lemma serialize_and_write_accept:
  assumes "storage s = Some b" "encode cfg d = Some p"
    "\<not> (medium b = WebStorage \<and> quota_exceeded b (attempts b) p)"
  shows "serialize_and_write cfg d s =
           (None, s\<lparr>storage := Some (b\<lparr>entries := (entries b)(storageKey cfg \<mapsto> p),
                                      attempts := Suc (attempts b),
                                      written := written b @ [(storageKey cfg, p)]\<rparr>)\<rparr>)"
  using assms
  by (auto simp: serialize_and_write_def encode_def storage_write_def split: sum.splits)

lemma getAllData_writes_of [simp]: "writes_of (snd (getAllData cfg s)) = writes_of s"
  by (auto simp: writes_of_def getAllData_def storage_remove_def split: option.splits)

lemma setItem_debounced_state:
  assumes deb: "debounceMs cfg > 0" and valid: "validateKey key (storage s) = None"
  shows "setItem cfg now key v None s =
     (Inr True, (snd (getAllData cfg s))
        \<lparr>pendingSave := Some (next_timer s),
         dirtyData := Some (AList.update key \<lparr>stored_value = v, expiry = None\<rparr> (fst (getAllData cfg s))),
         timers := (case pendingSave s of Some t \<Rightarrow> removeAll t (timers s) | None \<Rightarrow> timers s) @ [next_timer s],
         next_timer := Suc (next_timer s)\<rparr>)"
  using deb by (simp add: setItem_stores[OF valid] saveAllData_debounced split: option.splits)

lemma setItem_debounced_fields:
  assumes deb: "debounceMs cfg > 0" and valid: "validateKey key (storage s) = None"
  shows "fst (setItem cfg now key v None s) = Inr True"
    and "storage (snd (setItem cfg now key v None s)) = storage (snd (getAllData cfg s))"
    and "dirtyData (snd (setItem cfg now key v None s)) =
           Some (AList.update key \<lparr>stored_value = v, expiry = None\<rparr> (fst (getAllData cfg s)))"
    and "pendingSave (snd (setItem cfg now key v None s)) = Some (next_timer s)"
    and "timers (snd (setItem cfg now key v None s)) =
           (case pendingSave s of Some t \<Rightarrow> removeAll t (timers s) | None \<Rightarrow> timers s) @ [next_timer s]"
    and "next_timer (snd (setItem cfg now key v None s)) = Suc (next_timer s)"
    and "writes_of (snd (setItem cfg now key v None s)) = writes_of s"
  using getAllData_writes_of[of cfg s]
  by (simp_all add: setItem_debounced_state[OF deb valid] writes_of_def)

lemma getItem_from_dirty:
  assumes "validateKey key (storage s) = None" "dirtyData s = Some d" "map_of d key = Some item"
    "\<not> isExpired now (expiry item)"
  shows "getItem cfg now key s = (Inr (Value (stored_value item)), s)"
proof -
  have "getAllData cfg s = (d, s)"
    by (rule getAllData_dirty[OF validateKey_available[OF assms(1)] assms(2)])
  then show ?thesis using assms by (simp add: getItem_def removeIfExpired_def)
qed

lemma fire_timer_flushes:
  assumes t: "timers s = [t]" and d: "dirtyData s = Some d" and b: "storage s = Some b"
      and p: "encode cfg (limit_items cfg b d) = Some p"
      and acc: "\<not> (medium b = WebStorage \<and> quota_exceeded b (attempts b) p)"
  shows "fire_timer cfg now t s =
           s\<lparr>storage := Some (b\<lparr>entries := (entries b)(storageKey cfg \<mapsto> p),
                                   attempts := Suc (attempts b),
                                   written := written b @ [(storageKey cfg, p)]\<rparr>),
             pendingSave := None, dirtyData := None, timers := []\<rparr>"
proof -
  let ?s' = "s\<lparr>timers := []\<rparr>"
  have b': "storage ?s' = Some b" using b by simp
  have sw: "serialize_and_write cfg (limit_items cfg b d) ?s' =
           (None, ?s'\<lparr>storage := Some (b\<lparr>entries := (entries b)(storageKey cfg \<mapsto> p),
                                      attempts := Suc (attempts b),
                                      written := written b @ [(storageKey cfg, p)]\<rparr>)\<rparr>)"
    by (rule serialize_and_write_accept[OF b' p acc])
  have si: "saveAllDataImmediate cfg now d ?s' =
           (None, limit_items cfg b d,
            ?s'\<lparr>storage := Some (b\<lparr>entries := (entries b)(storageKey cfg \<mapsto> p),
                                      attempts := Suc (attempts b),
                                      written := written b @ [(storageKey cfg, p)]\<rparr>)\<rparr>)"
    using saveAllDataImmediate_ok[OF b', of cfg d now] sw by simp
  show ?thesis
    using t d by (simp add: fire_timer_def timer_callback_def save_dirty_def si)
qed

lemma eval_two_writes:
  "two_writes (demo_cfg 100) 1 2 ''k'' ''a'' ''v'' fresh_web_vault =
     fresh_web_vault\<lparr>pendingSave := Some 1,
        dirtyData := Some [(''k'', \<lparr>stored_value = ''v'', expiry = None\<rparr>)],
        timers := [1], next_timer := 2\<rparr>"
  by (simp add: op_defs demo_defs fresh_web_vault_def valid_k Let_def)

subsection \<open>The contract of setItem\<close>




subsection \<open>Key validation\<close>

text \<open>
  Six of the seven keyed operations start with \<open>validateKey\<close>: with a key or a store it
  rejects they throw its error and leave the state as it is.
\<close>

lemma keyed_operations_validate:
  assumes "validateKey key (storage s) = Some e"
  shows "setItem cfg now key v ttl s = (Inl e, s)"
    and "getItem cfg now key s = (Inl e, s)"
    and "updateItem cfg now key v s = (Inl e, s)"
    and "extendTTL cfg now key n s = (Inl e, s)"
    and "removeItem cfg now key s = (Inl e, s)"
    and "hasItem cfg now key s = (Inl e, s)"
  using assms
  by (simp_all add: setItem_def getItem_def updateItem_def extendTTL_def removeItem_def hasItem_def)

text \<open>
  C8. \<open>getRemainingTTL\<close> does not call \<open>validateKey\<close>. On a new engine, for the empty key,
  for a key of white space and for \<open>__proto__\<close>, all of which \<open>validateKey\<close> rejects and on
  which \<open>hasItem\<close> throws, it throws nothing: it returns \<open>null\<close> for the first two and, for
  \<open>__proto__\<close>, reads \<open>Object.prototype\<close> as the item and returns \<open>NaN\<close>.
\<close>

theorem getRemainingTTL_skips_key_validation:
  "validateKey [] (storage fresh_web_vault) = Some EmptyKey \<and>
   fst (hasItem (demo_cfg 100) 1 [] fresh_web_vault) = Inl EmptyKey \<and>
   getRemainingTTL (demo_cfg 100) 1 [] fresh_web_vault = (Inr None, fresh_web_vault) \<and>
   validateKey ''  '' (storage fresh_web_vault) = Some EmptyKey \<and>
   fst (hasItem (demo_cfg 100) 1 ''  '' fresh_web_vault) = Inl EmptyKey \<and>
   getRemainingTTL (demo_cfg 100) 1 ''  '' fresh_web_vault = (Inr None, fresh_web_vault) \<and>
   validateKey ''__proto__'' (storage fresh_web_vault) = Some DangerousKey \<and>
   fst (hasItem (demo_cfg 100) 1 ''__proto__'' fresh_web_vault) = Inl DangerousKey \<and>
   getRemainingTTL (demo_cfg 100) 1 ''__proto__'' fresh_web_vault = (Inr (Some NaN), fresh_web_vault)"
  by (simp add: op_defs demo_defs fresh_web_vault_def validateKey_def trim_is_empty_def
      js_whitespace_def DANGEROUS_KEYS_def standard_prototype_def OBJECT_PROTOTYPE_KEYS_def)

subsection \<open>Read your own write, and one write per flush\<close>




subsection \<open>The item limit of the in-memory store\<close>

lemma foldl_delete_filter:
  "foldl (\<lambda>d k. AList.delete k d) data ks = filter (\<lambda>e. fst e \<notin> set ks) data"
proof (induction ks arbitrary: data)
  case Nil
  then show ?case by simp
next
  case (Cons k ks)
  have "AList.delete k data = filter (\<lambda>e. fst e \<noteq> k) data"
    by (auto simp add: AList.delete_eq case_prod_unfold intro: filter_cong)
  then show ?case using Cons by (simp add: conj_commute)
qed

lemma rank_le_iff:
  assumes "map_of data k = Some i" "map_of data k' = Some i'"
  shows "(expiry_rank data k \<le> expiry_rank data k') = expires_no_later (expiry i) (expiry i')"
  using assms by (cases "expiry i"; cases "expiry i'") (auto simp: expiry_rank_def less_eq_prod_def)

lemma length_filter_not_in:
  assumes "distinct (map fst data)" "distinct ks" "set ks \<subseteq> fst ` set data"
  shows "length (filter (\<lambda>e. fst e \<notin> set ks) data) = length data - length ks"
proof -
  have d: "distinct data" using assms(1) by (simp add: distinct_map)
  have "length (filter (\<lambda>e. fst e \<notin> set ks) data) + length (filter (\<lambda>e. fst e \<in> set ks) data) = length data"
    using sum_length_filter_compl[of "\<lambda>e. fst e \<in> set ks" data] by simp
  moreover have "length (filter (\<lambda>e. fst e \<in> set ks) data) = length ks"
  proof -
    have "map fst (filter (\<lambda>e. fst e \<in> set ks) data) = filter (\<lambda>k. k \<in> set ks) (map fst data)"
      by (simp add: filter_map comp_def)
    moreover have "distinct (filter (\<lambda>k. k \<in> set ks) (map fst data))" using assms(1) by simp
    moreover have "set (filter (\<lambda>k. k \<in> set ks) (map fst data)) = set ks" using assms(3) by auto
    ultimately have "length (filter (\<lambda>k. k \<in> set ks) (map fst data)) = length ks"
      using assms(2) by (metis distinct_card)
    then show ?thesis
      by (metis \<open>map fst (filter (\<lambda>e. fst e \<in> set ks) data) = filter (\<lambda>k. k \<in> set ks) (map fst data)\<close> length_map)
  qed
  ultimately show ?thesis by simp
qed

lemma enforceItemLimit_evicts:
  assumes dist: "distinct (map fst data)" and over: "length data > maxItemsInMemory cfg"
  defines "evicted \<equiv> take (length data - maxItemsInMemory cfg) (sort_key (expiry_rank data) (map fst data))"
  shows "enforceItemLimit cfg data = filter (\<lambda>e. fst e \<notin> set evicted) data"
    and "length evicted = length data - maxItemsInMemory cfg"
    and "length (enforceItemLimit cfg data) = maxItemsInMemory cfg"
    and "\<forall>e \<in> set data. \<forall>r \<in> set (enforceItemLimit cfg data).
           fst e \<in> set evicted \<longrightarrow> expires_no_later (expiry (snd e)) (expiry (snd r))"
proof -
  let ?n = "length data - maxItemsInMemory cfg"
  let ?sorted = "sort_key (expiry_rank data) (map fst data)"
  show eq: "enforceItemLimit cfg data = filter (\<lambda>e. fst e \<notin> set evicted) data"
    using over by (simp add: enforceItemLimit_def Let_def foldl_delete_filter evicted_def)
  show len: "length evicted = ?n" by (simp add: evicted_def)
  have de: "distinct evicted" using dist by (simp add: evicted_def)
  have sub: "set evicted \<subseteq> fst ` set data"
    unfolding evicted_def using set_take_subset[of ?n ?sorted] by auto
  show "length (enforceItemLimit cfg data) = maxItemsInMemory cfg"
    using length_filter_not_in[OF dist de sub] len over by (simp add: eq)
  have srt: "sorted (map (expiry_rank data) (take ?n ?sorted @ drop ?n ?sorted))"
    by (simp add: sorted_sort_key del: sort_key_simps)
  have ord: "expiry_rank data k \<le> expiry_rank data k'"
    if "k \<in> set (take ?n ?sorted)" "k' \<in> set (drop ?n ?sorted)" for k k'
    using srt that unfolding map_append sorted_append by auto
  have rest: "set (drop ?n ?sorted) = set (map fst data) - set evicted"
  proof -
    have "distinct (take ?n ?sorted @ drop ?n ?sorted)" using dist by simp
    then have "set (take ?n ?sorted) \<inter> set (drop ?n ?sorted) = {}" by (simp only: distinct_append)
    moreover have "set (take ?n ?sorted) \<union> set (drop ?n ?sorted) = set (map fst data)"
      by (metis append_take_drop_id set_append set_sort)
    ultimately show ?thesis unfolding evicted_def by blast
  qed
  show "\<forall>e \<in> set data. \<forall>r \<in> set (enforceItemLimit cfg data).
           fst e \<in> set evicted \<longrightarrow> expires_no_later (expiry (snd e)) (expiry (snd r))"
  proof (intro ballI impI)
    fix e r assume e: "e \<in> set data" and r: "r \<in> set (enforceItemLimit cfg data)" and ev: "fst e \<in> set evicted"
    from r have r': "r \<in> set data" "fst r \<notin> set evicted" by (simp_all add: eq)
    then have "fst r \<in> set (drop ?n ?sorted)" unfolding rest by auto
    with ev have le: "expiry_rank data (fst e) \<le> expiry_rank data (fst r)"
      by (intro ord) (simp_all add: evicted_def)
    have me: "map_of data (fst e) = Some (snd e)" using dist e by (cases e) simp
    have mr: "map_of data (fst r) = Some (snd r)" using dist r'(1) by (cases r) simp
    from le show "expires_no_later (expiry (snd e)) (expiry (snd r))"
      by (simp add: rank_le_iff[OF me mr])
  qed
qed

text \<open>
  C9. Let the record set have each key once and the engine have a store. If the store
  is a \<open>Map\<close> and the record set has more items than \<open>maxItemsInMemory\<close>, an immediate
  write keeps exactly \<open>maxItemsInMemory\<close> items: the record set without
  \<open>count - maxItemsInMemory\<close> evicted keys, each evicted item expiring no later than each
  item kept, an item without expiry counting as expiring last. For a web store, or at
  or under the limit, nothing is evicted. What the write puts into the store, when it
  goes through, is the encoding of the record set so limited.
\<close>

theorem item_limit_eviction:
  assumes dist: "distinct (map fst data)" and st: "storage s = Some b"
  shows "(medium b = MapStorage \<and> length data > maxItemsInMemory cfg \<longrightarrow>
            length (limit_items cfg b data) = maxItemsInMemory cfg \<and>
            (\<exists>evicted. length evicted = length data - maxItemsInMemory cfg \<and>
               limit_items cfg b data = filter (\<lambda>e. fst e \<notin> set evicted) data \<and>
               (\<forall>e \<in> set data. \<forall>r \<in> set (limit_items cfg b data).
                  fst e \<in> set evicted \<longrightarrow> expires_no_later (expiry (snd e)) (expiry (snd r))))) \<and>
         (medium b = WebStorage \<or> length data \<le> maxItemsInMemory cfg \<longrightarrow> limit_items cfg b data = data) \<and>
         fst (snd (saveAllDataImmediate cfg now data s)) = limit_items cfg b data \<and>
         (fst (serialize_and_write cfg (limit_items cfg b data) s) = None \<longrightarrow>
            fst (saveAllDataImmediate cfg now data s) = None \<and>
            storage_read (storage (snd (snd (saveAllDataImmediate cfg now data s)))) (storageKey cfg) =
              encode cfg (limit_items cfg b data))"
proof -
  have 1: "medium b = MapStorage \<and> length data > maxItemsInMemory cfg \<longrightarrow>
            length (limit_items cfg b data) = maxItemsInMemory cfg \<and>
            (\<exists>evicted. length evicted = length data - maxItemsInMemory cfg \<and>
               limit_items cfg b data = filter (\<lambda>e. fst e \<notin> set evicted) data \<and>
               (\<forall>e \<in> set data. \<forall>r \<in> set (limit_items cfg b data).
                  fst e \<in> set evicted \<longrightarrow> expires_no_later (expiry (snd e)) (expiry (snd r))))"
  proof (intro impI, elim conjE)
    assume m: "medium b = MapStorage" and over: "length data > maxItemsInMemory cfg"
    have li: "limit_items cfg b data = enforceItemLimit cfg data"
      using m over by (simp add: limit_items_def)
    note ev = enforceItemLimit_evicts[OF dist over]
    show "length (limit_items cfg b data) = maxItemsInMemory cfg \<and>
            (\<exists>evicted. length evicted = length data - maxItemsInMemory cfg \<and>
               limit_items cfg b data = filter (\<lambda>e. fst e \<notin> set evicted) data \<and>
               (\<forall>e \<in> set data. \<forall>r \<in> set (limit_items cfg b data).
                  fst e \<in> set evicted \<longrightarrow> expires_no_later (expiry (snd e)) (expiry (snd r))))"
      unfolding li using ev by blast
  qed
  have 2: "medium b = WebStorage \<or> length data \<le> maxItemsInMemory cfg \<longrightarrow> limit_items cfg b data = data"
    by (auto simp: limit_items_def)
  have 3: "fst (snd (saveAllDataImmediate cfg now data s)) = limit_items cfg b data"
    using st by (simp add: saveAllDataImmediate.simps Let_def split: option.splits prod.splits)
  have 4: "fst (saveAllDataImmediate cfg now data s) = None \<and>
            storage_read (storage (snd (snd (saveAllDataImmediate cfg now data s)))) (storageKey cfg) =
              encode cfg (limit_items cfg b data)"
    if ok: "fst (serialize_and_write cfg (limit_items cfg b data) s) = None"
  proof -
    from serialize_and_write_ok[OF st ok] obtain p where p: "encode cfg (limit_items cfg b data) = Some p"
      "snd (serialize_and_write cfg (limit_items cfg b data) s) =
               s\<lparr>storage := Some (b\<lparr>entries := (entries b)(storageKey cfg \<mapsto> p),
                                      attempts := Suc (attempts b),
                                      written := written b @ [(storageKey cfg, p)]\<rparr>)\<rparr>" by blast
    show ?thesis
      by (simp add: saveAllDataImmediate_ok[OF st ok] p storage_read_def)
  qed
  from 1 2 3 4 show ?thesis by blast
qed

text \<open>The theorem at a \<open>Map\<close> with room for one item and a record set of two.\<close>

lemma small_map_cfg_simps [simp]:
  "storageKey small_map_cfg = ''APP_DATA''"
  "maxItemsInMemory small_map_cfg = 1"
  "debounceMs small_map_cfg = 0"
  "transform_apply small_map_cfg = Inr"
  "transform_reverse small_map_cfg = Some"
  "json_stringify small_map_cfg = demo_stringify"
  "json_parse small_map_cfg = demo_parse"
  by (simp_all add: small_map_cfg_def demo_cfg_def)

theorem item_limit_eviction_witness:
  "limit_items small_map_cfg (demo_backend MapStorage None (\<lambda>n v. False)) two_items =
     [(''k'', \<lparr>stored_value = ''v'', expiry = None\<rparr>)] \<and>
   length (limit_items small_map_cfg (demo_backend MapStorage None (\<lambda>n v. False)) two_items) = 1 \<and>
   fst (snd (saveAllDataImmediate small_map_cfg 10 two_items map_vault)) =
     [(''k'', \<lparr>stored_value = ''v'', expiry = None\<rparr>)] \<and>
   fst (saveAllDataImmediate small_map_cfg 10 two_items map_vault) = None \<and>
   storage_read (storage (snd (snd (saveAllDataImmediate small_map_cfg 10 two_items map_vault)))) ''APP_DATA'' =
     Some ''{k=v;}''"
proof -
  let ?b = "demo_backend MapStorage None (\<lambda>n v. False)"
  have dist: "distinct (map fst two_items)" by (simp add: two_items_def)
  have st: "storage map_vault = Some ?b" by (simp add: map_vault_def demo_vault_def constructed_def)
  have m: "medium ?b = MapStorage \<and> length two_items > maxItemsInMemory small_map_cfg"
    by (simp add: demo_backend_def two_items_def)
  have r1: "expiry_rank two_items ''old'' = (False, 5)" "expiry_rank two_items ''k'' = (True, 0)"
    by (simp_all add: expiry_rank_def two_items_def)
  have li: "limit_items small_map_cfg ?b two_items = [(''k'', \<lparr>stored_value = ''v'', expiry = None\<rparr>)]"
    using m r1 by (simp add: limit_items_def enforceItemLimit_def Let_def less_eq_prod_def)
       (simp add: two_items_def)
  have ok: "fst (serialize_and_write small_map_cfg (limit_items small_map_cfg ?b two_items) map_vault) = None"
    unfolding li by (simp add: serialize_and_write_def storage_write_def map_vault_def demo_defs)
  have en: "encode small_map_cfg (limit_items small_map_cfg ?b two_items) = Some ''{k=v;}''"
    unfolding li by (simp add: encode_def demo_defs)
  from item_limit_eviction[OF dist st, of small_map_cfg 10] m ok li en show ?thesis
    by simp
qed

subsection \<open>Corrupted entries\<close>

lemma getAllData_corrupt:
  assumes st: "storage s = Some b" and clean: "dirtyData s = None"
      and raw: "entries b (storageKey cfg) = Some raw" and bad: "raw = [] \<or> decode cfg raw = None"
  shows "getAllData cfg s =
           ([], if raw = [] \<or> (medium b = WebStorage \<and> remove_throws b) then s
                else s\<lparr>storage := Some (b\<lparr>entries := (entries b)(storageKey cfg := None)\<rparr>)\<rparr>)"
proof -
  have "s\<lparr>storage := Some b\<rparr> = s" using st by simp
  then show ?thesis
    using assms by (auto simp: getAllData_def storage_read_def storage_remove_def)
qed

lemma getAllData_corrupt_again:
  assumes st: "storage s = Some b" and clean: "dirtyData s = None"
      and raw: "entries b (storageKey cfg) = Some raw" and bad: "raw = [] \<or> decode cfg raw = None"
  shows "getAllData cfg (snd (getAllData cfg s)) = ([], snd (getAllData cfg s))"
proof (cases "raw = [] \<or> (medium b = WebStorage \<and> remove_throws b)")
  case True
  then have "snd (getAllData cfg s) = s" using getAllData_corrupt[OF assms] by simp
  then show ?thesis using getAllData_corrupt[OF assms] True by simp
next
  case False
  then have "snd (getAllData cfg s) = s\<lparr>storage := Some (b\<lparr>entries := (entries b)(storageKey cfg := None)\<rparr>)\<rparr>"
    using getAllData_corrupt[OF assms] by auto
  then show ?thesis using clean by (simp add: getAllData_def storage_read_def)
qed




subsection \<open>Quota recovery\<close>

text \<open>
  The run of \<open>setItem\<close> with immediate writes on a web store that is nearly full. The
  first write is rejected; \<open>cleanupExpiredItems\<close> reads the record set back from the
  store, removes the expired item and writes; the retry reads the store again and
  writes the same.
\<close>

lemma full_vault_setItem:
  "setItem (demo_cfg 0) 10 ''k'' ''v'' None full_vault =
     (Inr True,
      demo_vault (\<lparr>medium = WebStorage,
                   entries = (\<lambda>k. if k = ''APP_DATA'' then Some ''{}'' else None),
                   quota_exceeded = (\<lambda>n v. length v > 15), attempts = 3,
                   written = [(''APP_DATA'', ''{}''), (''APP_DATA'', ''{}'')],
                   remove_throws = False\<rparr>))"
  by (simp add: op_defs demo_defs full_vault_def save_simps valid_k Let_def fun_eq_iff replicate_5)

text \<open>
  C2. The claim fails on this run: \<open>setItem\<close> returns true and the expired item is
  gone, but what the retry wrote is the record set of the store without the new item.
  The store holds \<open>{}\<close>, the value is not persisted and \<open>getItem\<close> returns absent, although
  the record set with the new item and without the expired one would have fitted.
\<close>

theorem quota_recovery_drops_new_value:
  "fst (setItem (demo_cfg 0) 10 ''k'' ''v'' None full_vault) = Inr True \<and>
   storage_read (storage (snd (setItem (demo_cfg 0) 10 ''k'' ''v'' None full_vault))) ''APP_DATA'' = Some ''{}'' \<and>
   writes_of (snd (setItem (demo_cfg 0) 10 ''k'' ''v'' None full_vault)) =
     [(''APP_DATA'', ''{}''), (''APP_DATA'', ''{}'')] \<and>
   fst (getItem (demo_cfg 0) 11 ''k'' (snd (setItem (demo_cfg 0) 10 ''k'' ''v'' None full_vault))) = Inr Null \<and>
   encode (demo_cfg 0) [(''k'', \<lparr>stored_value = ''v'', expiry = None\<rparr>)] = Some ''{k=v;}'' \<and>
   \<not> length ''{k=v;}'' > 15"
  unfolding full_vault_setItem
  by (simp add: op_defs demo_defs valid_k)

text \<open>The run has no precondition; the loss of the value, read off the run.\<close>

theorem quota_recovery_drops_new_value_witness:
  "fst (setItem (demo_cfg 0) 10 ''k'' ''v'' None full_vault) = Inr True \<and>
   fst (getItem (demo_cfg 0) 11 ''k'' (snd (setItem (demo_cfg 0) 10 ''k'' ''v'' None full_vault))) = Inr Null"
  using quota_recovery_drops_new_value by blast

text \<open>
  The same retry on the flush of a dirty buffer: the cleaned copy is written, then the
  buffer itself, expired item included, is written again; here the store rejects it, so
  \<open>flush\<close> throws and the buffer stays.
\<close>

lemma flush_retries_with_uncleaned_buffer:
  "fst (flush (demo_cfg 100) 10 (full_vault\<lparr>dirtyData := Some two_items\<rparr>)) = Some QuotaExceeded \<and>
   storage_read (storage (snd (flush (demo_cfg 100) 10 (full_vault\<lparr>dirtyData := Some two_items\<rparr>)))) ''APP_DATA'' =
     Some ''{k=v;}'' \<and>
   dirtyData (snd (flush (demo_cfg 100) 10 (full_vault\<lparr>dirtyData := Some two_items\<rparr>))) = Some two_items"
  by (simp add: op_defs demo_defs full_vault_def two_items_def save_simps Let_def replicate_5)

subsection \<open>The states an engine goes through keep the invariant\<close>

lemma same_engine_refl [simp]: "same_engine s s"
  by (simp add: same_engine_def)

lemma same_engine_getAllData [simp]: "same_engine s (snd (getAllData cfg s))"
  by (simp add: same_engine_def)

lemma same_engine_write [simp]: "same_engine s (snd (serialize_and_write cfg d s))"
  by (simp add: same_engine_def)

lemma same_engine_trans: "same_engine s t \<Longrightarrow> same_engine t u \<Longrightarrow> same_engine s u"
  by (simp add: same_engine_def)

lemma save_family_same_engine:
  "same_engine s (snd (snd (saveAllDataImmediate cfg now data s)))"
  "same_engine s (snd (handleSaveError cfg now e s))"
  "same_engine s (snd (cleanupExpiredItems cfg now s))"
proof (induction cfg now data s and cfg now e s and cfg now s
    rule: saveAllDataImmediate_handleSaveError_cleanupExpiredItems.induct)
  case (1 cfg now data s)
  show ?case
  proof (cases "storage s")
    case None
    then show ?thesis by (simp add: saveAllDataImmediate.simps)
  next
    case (Some b)
    let ?d = "limit_items cfg b data"
    show ?thesis
    proof (cases "fst (serialize_and_write cfg ?d s)")
      case None
      then show ?thesis using Some by (simp add: saveAllDataImmediate.simps Let_def)
    next
      case (Some e)
      note ih = "1.IH"[OF \<open>storage s = Some b\<close> refl Some]
      have "same_engine s (snd (handleSaveError cfg now e (snd (serialize_and_write cfg ?d s))))"
        using same_engine_trans[OF same_engine_write ih] .
      then show ?thesis
        using \<open>storage s = Some b\<close> Some
        by (auto simp: saveAllDataImmediate.simps Let_def split: prod.splits)
    qed
  qed
next
  case (2 cfg now e s)
  show ?case
  proof (cases "e = DOMQuotaExceeded \<and> \<not> isCleaningUp s")
    case False
    then show ?thesis by (cases e) (auto simp: handleSaveError.simps)
  next
    case True
    then have e: "e = DOMQuotaExceeded" and nc: "\<not> isCleaningUp s" by simp_all
    note ih = "2.IH"[OF e nc]
    obtain r s1 where c: "cleanupExpiredItems cfg now (s\<lparr>isCleaningUp := True\<rparr>) = (r, s1)"
      by (cases "cleanupExpiredItems cfg now (s\<lparr>isCleaningUp := True\<rparr>)") auto
    obtain fresh s2 where g: "getAllData cfg s1 = (fresh, s2)" by (cases "getAllData cfg s1") auto
    obtain w s3 where w: "serialize_and_write cfg fresh s2 = (w, s3)"
      by (cases "serialize_and_write cfg fresh s2") auto
    have s1: "same_engine (s\<lparr>isCleaningUp := True\<rparr>) s1" using ih c by simp
    have s2: "same_engine s1 s2" using same_engine_getAllData[of s1 cfg] g by simp
    have s3: "same_engine s2 s3" using same_engine_write[of s2 cfg fresh] w by simp
    show ?thesis
      using s1 s2 s3 c g w e nc
      by (cases r; cases w) (simp_all add: handleSaveError.simps same_engine_def)
  qed
next
  case (3 cfg now s)
  show ?case
  proof (cases "isAvailable (storage s)")
    case False
    then show ?thesis by (simp add: cleanupExpiredItems.simps)
  next
    case True
    obtain data n where l: "cleanup_loop now (map fst (fst (getAllData cfg s))) (fst (getAllData cfg s)) 0 = (data, n)"
      by (cases "cleanup_loop now (map fst (fst (getAllData cfg s))) (fst (getAllData cfg s)) 0") auto
    show ?thesis
    proof (cases "n > 0")
      case False
      then show ?thesis using True l by (auto simp: cleanupExpiredItems.simps Let_def split: prod.splits)
    next
      case pos: True
      have av: "\<not> \<not> isAvailable (storage s)" using True by simp
      note ih = "3.IH"[OF av l[symmetric] pos]
      have "same_engine s (snd (snd (saveAllDataImmediate cfg now data (snd (getAllData cfg s)))))"
        using same_engine_trans[OF same_engine_getAllData ih] .
      then show ?thesis
        using True l pos
        by (auto simp: cleanupExpiredItems.simps Let_def split: prod.splits option.splits)
    qed
  qed
qed

lemma invariant_same_engine:
  "same_engine s s' \<Longrightarrow> engine_invariant cfg s \<Longrightarrow> engine_invariant cfg s'"
  by (auto simp: same_engine_def engine_invariant_def timers_tracked_def)

lemma invariant_getAllData:
  "engine_invariant cfg s \<Longrightarrow> engine_invariant cfg (snd (getAllData cfg s))"
  using invariant_same_engine[OF same_engine_getAllData] .

lemma invariant_saveAllData:
  assumes "engine_invariant cfg s" "storage s \<noteq> None"
  shows "engine_invariant cfg (snd (saveAllData cfg now data s))"
proof (cases "debounceMs cfg > 0")
  case True
  then show ?thesis
    using assms
    by (auto simp: saveAllData_def engine_invariant_def timers_tracked_def setTimeout_def
        clearTimeout_def Let_def split: option.splits)
next
  case False
  have "same_engine s (snd (snd (saveAllDataImmediate cfg now data s)))"
    by (rule save_family_same_engine)
  then show ?thesis
    using False assms(1) by (auto simp: saveAllData_def split: prod.splits intro: invariant_same_engine)
qed

lemma invariant_save_dirty:
  assumes "engine_invariant cfg s"
  shows "engine_invariant cfg (snd (save_dirty cfg now s))"
proof (cases "dirtyData s")
  case None
  then show ?thesis using assms by (simp add: save_dirty_def)
next
  case (Some d)
  have "same_engine s (snd (snd (saveAllDataImmediate cfg now d s)))"
    by (rule save_family_same_engine)
  then show ?thesis
    using Some assms
    by (auto simp: save_dirty_def same_engine_def engine_invariant_def timers_tracked_def
        split: prod.splits option.splits)
qed

lemma invariant_cancel_pending:
  "engine_invariant cfg s \<Longrightarrow> engine_invariant cfg (cancel_pending s)"
  by (auto simp: cancel_pending_def clearTimeout_def engine_invariant_def timers_tracked_def
      split: option.splits)

lemma invariant_after_read:
  assumes "engine_invariant cfg s" "getAllData cfg s = (data, s1)"
  shows "engine_invariant cfg s1"
  using invariant_getAllData[OF assms(1)] assms(2) by simp

lemma invariant_read_then_save:
  assumes "engine_invariant cfg s" "storage s \<noteq> None" "getAllData cfg s = (data, s1)"
  shows "engine_invariant cfg (snd (saveAllData cfg now d s1))"
proof (rule invariant_saveAllData)
  show "engine_invariant cfg s1" using invariant_after_read[OF assms(1,3)] .
  show "storage s1 \<noteq> None" using getAllData_available[of cfg s] assms(2,3) by simp
qed

lemma invariant_valid_then_save:
  assumes "engine_invariant cfg s" "validateKey key (storage s) = None" "getAllData cfg s = (data, s1)"
  shows "engine_invariant cfg (snd (saveAllData cfg now d s1))"
  using invariant_read_then_save[OF assms(1) validateKey_available[OF assms(2)] assms(3)] .

lemma set_member_storage [simp]:
  "storage (set_member_value key v s) = storage s"
  "storage (set_member_expiry key e s) = storage s"
  by (simp_all add: set_member_value_def set_member_expiry_def split: option.splits)

lemma invariant_set_member [simp]:
  "engine_invariant cfg (set_member_value key v s) = engine_invariant cfg s"
  "engine_invariant cfg (set_member_expiry key e s) = engine_invariant cfg s"
  by (auto simp: set_member_value_def set_member_expiry_def engine_invariant_def timers_tracked_def
      split: option.splits)

lemma invariant_valid_then_save_member:
  assumes "engine_invariant cfg s" "validateKey key (storage s) = None" "getAllData cfg s = (data, s1)"
  shows "engine_invariant cfg (snd (saveAllData cfg now d (set_member_value k v s1)))"
    and "engine_invariant cfg (snd (saveAllData cfg now d (set_member_expiry k e s1)))"
proof -
  have i: "engine_invariant cfg s1" using invariant_after_read[OF assms(1,3)] .
  have a: "storage s1 \<noteq> None"
    using getAllData_available[of cfg s] validateKey_available[OF assms(2)] assms(3) by simp
  show "engine_invariant cfg (snd (saveAllData cfg now d (set_member_value k v s1)))"
    by (rule invariant_saveAllData) (simp_all add: i a)
  show "engine_invariant cfg (snd (saveAllData cfg now d (set_member_expiry k e s1)))"
    by (rule invariant_saveAllData) (simp_all add: i a)
qed

lemma invariant_removeItem:
  "engine_invariant cfg s \<Longrightarrow> engine_invariant cfg (snd (removeItem cfg now key s))"
  by (auto simp: removeItem_def split: option.splits prod.splits
      intro: invariant_valid_then_save invariant_after_read)

lemma invariant_setItem:
  "engine_invariant cfg s \<Longrightarrow> engine_invariant cfg (snd (setItem cfg now key v ttl s))"
  by (auto simp: setItem_def Let_def invariant_removeItem split: option.splits prod.splits
      intro: invariant_valid_then_save invariant_after_read)

lemma invariant_getItem:
  "engine_invariant cfg s \<Longrightarrow> engine_invariant cfg (snd (getItem cfg now key s))"
  by (auto simp: getItem_def split: option.splits prod.splits property.splits
      intro: invariant_valid_then_save invariant_after_read)

lemma invariant_updateItem:
  "engine_invariant cfg s \<Longrightarrow> engine_invariant cfg (snd (updateItem cfg now key v s))"
  by (auto simp: updateItem_def split: option.splits prod.splits property.splits
      intro: invariant_valid_then_save invariant_valid_then_save_member invariant_after_read)

lemma invariant_extendTTL:
  "engine_invariant cfg s \<Longrightarrow> engine_invariant cfg (snd (extendTTL cfg now key n s))"
  by (auto simp: extendTTL_def Let_def split: option.splits prod.splits number.splits property.splits
      intro: invariant_valid_then_save invariant_valid_then_save_member invariant_after_read)

lemma invariant_hasItem:
  "engine_invariant cfg s \<Longrightarrow> engine_invariant cfg (snd (hasItem cfg now key s))"
  by (auto simp: hasItem_def split: option.splits prod.splits property.splits
      intro: invariant_valid_then_save invariant_after_read)

lemma invariant_getRemainingTTL:
  "engine_invariant cfg s \<Longrightarrow> engine_invariant cfg (snd (getRemainingTTL cfg now key s))"
  by (auto simp: getRemainingTTL_def isAvailable_def Let_def split: option.splits prod.splits property.splits
      intro: invariant_read_then_save invariant_after_read)

lemma invariant_getAllKeys:
  "engine_invariant cfg s \<Longrightarrow> engine_invariant cfg (snd (getAllKeys cfg now s))"
  by (auto simp: getAllKeys_def isAvailable_def split: prod.splits intro: invariant_after_read)

lemma invariant_getAll:
  "engine_invariant cfg s \<Longrightarrow> engine_invariant cfg (snd (getAll cfg now s))"
  by (auto simp: getAll_def isAvailable_def split: prod.splits intro: invariant_after_read)

lemma invariant_cleanupExpiredItems:
  "engine_invariant cfg s \<Longrightarrow> engine_invariant cfg (snd (cleanupExpiredItems cfg now s))"
  using invariant_same_engine[OF save_family_same_engine(3)] .

lemma invariant_flush:
  "engine_invariant cfg s \<Longrightarrow> engine_invariant cfg (snd (flush cfg now s))"
  by (simp add: flush_def invariant_save_dirty invariant_cancel_pending)

lemma invariant_unload_handler:
  "engine_invariant cfg s \<Longrightarrow> engine_invariant cfg (snd (unload_handler cfg now s))"
  by (simp add: unload_handler_def invariant_save_dirty)

lemma save_dirty_fields:
  "pendingSave (snd (save_dirty cfg now s)) = pendingSave s"
  "timers (snd (save_dirty cfg now s)) = timers s"
  "isCleaningUp (snd (save_dirty cfg now s)) = isCleaningUp s"
  "(storage (snd (save_dirty cfg now s)) = None) = (storage s = None)"
  "dirtyData s = None \<Longrightarrow> dirtyData (snd (save_dirty cfg now s)) = None"
proof -
  have "same_engine s (snd (snd (saveAllDataImmediate cfg now d s)))" for d
    by (rule save_family_same_engine)
  then have *: "saveAllDataImmediate cfg now d s = (r, d', s') \<Longrightarrow> same_engine s s'" for d r d' s'
    by (metis snd_conv)
  show "pendingSave (snd (save_dirty cfg now s)) = pendingSave s"
    "timers (snd (save_dirty cfg now s)) = timers s"
    "isCleaningUp (snd (save_dirty cfg now s)) = isCleaningUp s"
    "(storage (snd (save_dirty cfg now s)) = None) = (storage s = None)"
    "dirtyData s = None \<Longrightarrow> dirtyData (snd (save_dirty cfg now s)) = None"
    by (auto simp: save_dirty_def same_engine_def split: option.splits prod.splits dest!: *)
qed

lemma invariant_fire_timer:
  assumes "engine_invariant cfg s"
  shows "engine_invariant cfg (fire_timer cfg now t s)"
proof (cases "t \<in> set (timers s)")
  case False
  then show ?thesis using assms by (simp add: fire_timer_def)
next
  case True
  let ?s = "s\<lparr>timers := removeAll t (timers s)\<rparr>"
  have t: "timers ?s = []"
    using True assms by (auto simp: engine_invariant_def timers_tracked_def split: option.splits)
  have d: "dirtyData s = None \<longrightarrow> dirtyData (snd (save_dirty cfg now ?s)) = None"
    by (simp add: save_dirty_fields(5))
  show ?thesis
    using True assms t d save_dirty_fields(2,3,4)[of cfg now ?s]
    by (auto simp: fire_timer_def timer_callback_def engine_invariant_def timers_tracked_def)
qed

lemma invariant_clear:
  "engine_invariant cfg s \<Longrightarrow> engine_invariant cfg (snd (clear cfg s))"
  by (auto simp: clear_def Let_def isAvailable_def storage_remove_def cancel_pending_def
      clearTimeout_def engine_invariant_def timers_tracked_def split: option.splits prod.splits if_splits)

lemma invariant_constructed: "engine_invariant cfg (constructed st n proto)"
  by (simp add: constructed_def engine_invariant_def timers_tracked_def)

lemma reachable_invariant: "reachable cfg s \<Longrightarrow> engine_invariant cfg s"
proof (induction rule: reachable.induct)
  case (r_store s b other)
  then show ?case by (simp add: engine_invariant_def timers_tracked_def)
qed (simp_all add: invariant_constructed invariant_setItem invariant_getItem invariant_updateItem
    invariant_extendTTL invariant_removeItem invariant_hasItem invariant_getRemainingTTL
    invariant_cleanupExpiredItems invariant_getAllKeys invariant_getAll invariant_getAllData
    invariant_flush invariant_clear invariant_fire_timer invariant_unload_handler)

text \<open>
  So in every state an engine goes through, the host holds no timer but the pending
  one, and a dirty buffer exists only where there is a store and a positive debounce.
\<close>

lemma reachable_timers_tracked: "reachable cfg s \<Longrightarrow> timers_tracked s"
  using reachable_invariant by (auto simp: engine_invariant_def)

lemma reachable_dirty_has_store:
  "reachable cfg s \<Longrightarrow> dirtyData s = Some d \<Longrightarrow> storage s \<noteq> None \<and> debounceMs cfg > 0"
  using reachable_invariant[of cfg s] by (auto simp: engine_invariant_def)

lemma reachable_not_cleaning: "reachable cfg s \<Longrightarrow> \<not> isCleaningUp s"
  using reachable_invariant[of cfg s] by (auto simp: engine_invariant_def)

section \<open>What getAllData hands out for the dirty buffer\<close>

lemma item_at_append:
  "a < length h \<Longrightarrow> item_at (h @ xs) a = item_at h a"
  by (simp add: item_at_def nth_append)

lemma read_props_Some_bound:
  "read_props h ps = Some d \<Longrightarrow> \<forall>p \<in> set ps. snd p < length h"
  by (induction ps arbitrary: d) (auto simp: item_at_def split: option.splits if_splits)

lemma read_props_cong:
  "\<forall>p \<in> set ps. item_at h' (snd p) = item_at h (snd p) \<Longrightarrow> read_props h' ps = read_props h ps"
  by (induction ps) (auto split: option.splits)

lemma read_props_map_of:
  "read_props h ps = Some d \<Longrightarrow>
   map_of d k = (case map_of ps k of None \<Rightarrow> None | Some a \<Rightarrow> item_at h a)"
  by (induction ps arbitrary: d) (auto split: option.splits)

lemma deref_Some:
  "deref h r = Some d \<Longrightarrow> r < length h \<and> (\<exists>ps frozen. h ! r = RecordObject ps frozen \<and> read_props h ps = Some d)"
  by (auto simp: deref_def split: if_splits jsobject.splits)

text \<open>
  A store \<open>h'\<close> keeps what an address \<open>r\<close> of \<open>h\<close> stands for when it extends \<open>h\<close>, holds the
  same record object at \<open>r\<close> and the same item objects at the addresses of \<open>h\<close>.
\<close>

lemma deref_preserved:
  assumes d: "deref h r = Some d" and len: "length h \<le> length h'" and r: "h' ! r = h ! r"
      and items: "\<forall>a < length h. item_at h' a = item_at h a"
  shows "deref h' r = Some d"
proof -
  from deref_Some[OF d] obtain ps frozen where
    p: "r < length h" "h ! r = RecordObject ps frozen" "read_props h ps = Some d" by blast
  have "read_props h' ps = read_props h ps"
    by (rule read_props_cong) (use read_props_Some_bound[OF p(3)] items in auto)
  then show ?thesis using p len r by (simp add: deref_def)
qed

lemma mutate_other:
  assumes "mutate h r' m = Some h'" "r' < length h" "changes_properties m"
  shows "length h \<le> length h' \<and> r' < length h' \<and>
         (\<forall>a < length h. a \<noteq> r' \<longrightarrow> h' ! a = h ! a) \<and>
         (\<forall>a < length h. item_at h' a = item_at h a)"
proof (cases m)
  case (Assign key v e)
  with assms obtain ps where ps: "h ! r' = RecordObject ps False"
    and h': "h' = (h @ [ItemObject v e])[r' := RecordObject (AList.update key (length h) ps) False]"
    by (auto simp: alloc_def split: jsobject.splits if_splits)
  show ?thesis
    using assms(2) ps unfolding h'
    by (auto simp: nth_list_update nth_append item_at_def)
next
  case (Delete key)
  with assms obtain ps where ps: "h ! r' = RecordObject ps False"
    and h': "h' = h[r' := RecordObject (AList.delete key ps) False]"
    by (auto split: jsobject.splits if_splits)
  show ?thesis
    using assms(2) ps unfolding h'
    by (auto simp: nth_list_update item_at_def)
next
  case (Write key v)
  with assms(3) show ?thesis by simp
qed

lemma mutate_all_other:
  assumes "r' < length h" "list_all changes_properties ms"
  shows "length h \<le> length (mutate_all h r' ms) \<and>
         (\<forall>a < length h. a \<noteq> r' \<longrightarrow> mutate_all h r' ms ! a = h ! a) \<and>
         (\<forall>a < length h. item_at (mutate_all h r' ms) a = item_at h a)"
  using assms
proof (induction ms arbitrary: h)
  case Nil
  then show ?case by simp
next
  case (Cons m ms)
  show ?case
  proof (cases "mutate h r' m")
    case None
    then show ?thesis by simp
  next
    case (Some h1)
    from Cons.prems have cm: "changes_properties m" and cms: "list_all changes_properties ms" by simp_all
    note m1 = mutate_other[OF Some Cons.prems(1) cm]
    from m1 have r1: "r' < length h1" by simp
    note ih = Cons.IH[OF r1 cms]
    show ?thesis
      using m1 ih Some by (auto simp: less_le_trans)
  qed
qed

lemma getAllData_ref_dirty:
  "st \<noteq> None \<Longrightarrow>
   getAllData_ref cfg st (Some r) h = ((length h, h @ [RecordObject (props (h ! r)) False]), st)"
  by (auto simp add: getAllData_ref_def alloc_def)

lemma getAllData_core_ref_dirty:
  "st \<noteq> None \<Longrightarrow> getAllData_core_ref cfg st (Some r) h = ((r, h[r := freeze (h ! r)]), st)"
  by (auto simp add: getAllData_core_ref_def)

lemma deref_spread:
  assumes d: "deref h r = Some d"
  shows "deref (h @ [RecordObject (props (h ! r)) False]) (length h) = Some d"
    and "deref (h @ [RecordObject (props (h ! r)) False]) r = Some d"
proof -
  from deref_Some[OF d] obtain ps frozen where
    p: "r < length h" "h ! r = RecordObject ps frozen" "read_props h ps = Some d" by blast
  let ?h' = "h @ [RecordObject ps False]"
  have items: "\<forall>a < length h. item_at ?h' a = item_at h a"
    by (simp add: item_at_append)
  have rp: "read_props ?h' ps = Some d"
    using read_props_cong[of ps ?h' h] read_props_Some_bound[OF p(3)] p(3) by (simp add: item_at_append)
  show "deref (h @ [RecordObject (props (h ! r)) False]) (length h) = Some d"
    by (simp add: deref_def rp p(2))
  have "deref ?h' r = Some d"
    by (rule deref_preserved[OF d]) (use p items in \<open>simp_all add: nth_append\<close>)
  then show "deref (h @ [RecordObject (props (h ! r)) False]) r = Some d" by (simp add: p(2))
qed

lemma deref_frozen:
  assumes d: "deref h r = Some d"
  shows "deref (h[r := freeze (h ! r)]) r = Some d"
proof -
  from deref_Some[OF d] obtain ps frozen where
    p: "r < length h" "h ! r = RecordObject ps frozen" "read_props h ps = Some d" by blast
  let ?h' = "h[r := RecordObject ps True]"
  have "\<forall>q \<in> set ps. item_at ?h' (snd q) = item_at h (snd q)"
    using p by (auto simp: item_at_def nth_list_update)
  then have "read_props ?h' ps = Some d" using read_props_cong[of ps ?h' h] p(3) by simp
  then show ?thesis using p by (simp add: freeze_def deref_def)
qed

text \<open>
  A write through the item that property \<open>k\<close> of a record refers to shows in every
  record that has the item as property \<open>k\<close>.
\<close>

lemma read_props_set_item_value:
  assumes rp: "read_props h ps = Some d" and a: "item_at h a = Some i"
  shows "\<exists>d'. read_props (set_item_value h a v) ps = Some d' \<and>
              (\<forall>k. map_of ps k = Some a \<longrightarrow> map_of d' k = Some (i\<lparr>stored_value := v\<rparr>))"
proof -
  from a obtain v0 e where ha: "a < length h" "h ! a = ItemObject v0 e" "i = \<lparr>stored_value = v0, expiry = e\<rparr>"
    by (auto simp: item_at_def split: if_splits jsobject.splits)
  let ?h' = "set_item_value h a v"
  have h': "?h' = h[a := ItemObject v e]" using ha by (simp add: set_item_value_def)
  have ia: "item_at ?h' a = Some (i\<lparr>stored_value := v\<rparr>)"
    using ha by (simp add: h' item_at_def)
  have io: "item_at ?h' c \<noteq> None" if "item_at h c \<noteq> None" for c
    using that ha by (cases "c = a") (auto simp: h' item_at_def split: if_splits)
  have "\<exists>d'. read_props ?h' qs = Some d'" if "read_props h qs = Some dq" for qs dq
    using that
  proof (induction qs arbitrary: dq)
    case Nil
    then show ?case by simp
  next
    case (Cons q qs)
    from Cons.prems obtain iq dq' where q: "item_at h (snd q) = Some iq" "read_props h qs = Some dq'"
      by (auto split: option.splits)
    from io[of "snd q"] q(1) obtain iq' where "item_at ?h' (snd q) = Some iq'" by auto
    moreover from Cons.IH[OF q(2)] obtain d' where "read_props ?h' qs = Some d'" by blast
    ultimately show ?case by simp
  qed
  from this[OF rp] obtain d' where d': "read_props ?h' ps = Some d'" by blast
  have "map_of d' k = Some (i\<lparr>stored_value := v\<rparr>)" if "map_of ps k = Some a" for k
    using read_props_map_of[OF d', of k] that ia by simp
  with d' show ?thesis by blast
qed

lemma write_through_item:
  assumes d: "deref h r = Some d" and k: "map_of d k = Some i"
      and same: "h ! r' = RecordObject (props (h ! r)) f" "r' < length h"
  shows "\<exists>d'. deref (mutate_all h r' [Write k v]) r = Some d' \<and>
              map_of d' k = Some (i\<lparr>stored_value := v\<rparr>)"
proof -
  from deref_Some[OF d] obtain ps frozen where
    p: "r < length h" "h ! r = RecordObject ps frozen" "read_props h ps = Some d" by blast
  from read_props_map_of[OF p(3), of k] k obtain a where a: "map_of ps k = Some a" "item_at h a = Some i"
    by (auto split: option.splits)
  from a(2) obtain v0 e where ha: "a < length h" "h ! a = ItemObject v0 e"
    by (auto simp: item_at_def split: if_splits jsobject.splits)
  have ne: "a \<noteq> r" using ha p by auto
  have m: "mutate_all h r' [Write k v] = set_item_value h a v"
    using same a(1) p(2) by simp
  from read_props_set_item_value[OF p(3) a(2), of v] obtain d' where
    d': "read_props (set_item_value h a v) ps = Some d'"
        "map_of d' k = Some (i\<lparr>stored_value := v\<rparr>)"
    using a(1) by blast
  have "set_item_value h a v ! r = h ! r"
    using ha ne by (simp add: set_item_value_def)
  moreover have "length (set_item_value h a v) = length h"
    using ha by (simp add: set_item_value_def)
  ultimately have "deref (set_item_value h a v) r = Some d'"
    using p d'(1) by (simp add: deref_def)
  with d'(2) show ?thesis unfolding m by blast
qed




text \<open>
  What \<open>JSON.parse\<close> allocates stands for the record set parsed, so the result of either
  \<open>getAllData\<close> on objects stands for the result of \<open>getAllData\<close> on values.
\<close>

lemma alloc_items_read:
  "alloc_items h d = (ps, h1) \<Longrightarrow>
   length h \<le> length h1 \<and> (\<forall>a < length h. h1 ! a = h ! a) \<and> read_props h1 ps = Some d"
proof (induction d arbitrary: h ps h1)
  case Nil
  then show ?case by simp
next
  case (Cons e d)
  let ?hi = "h @ [ItemObject (stored_value (snd e)) (expiry (snd e))]"
  obtain ps2 h2 where a2: "alloc_items ?hi d = (ps2, h2)" by (cases "alloc_items ?hi d") auto
  with Cons.prems have eq: "ps = (fst e, length h) # ps2" "h1 = h2"
    by (auto simp: alloc_def)
  from Cons.IH[OF a2] have ih: "length ?hi \<le> length h2" "\<forall>a < length ?hi. h2 ! a = ?hi ! a"
    "read_props h2 ps2 = Some d" by auto
  have "h2 ! length h = ItemObject (stored_value (snd e)) (expiry (snd e))"
    using ih(2) by simp
  then have it: "item_at h2 (length h) = Some (snd e)"
    using ih(1) by (simp add: item_at_def)
  have old: "\<forall>a < length h. h2 ! a = h ! a" using ih(2) by (simp add: nth_append)
  show ?case unfolding eq using ih(1,3) it old by simp
qed

lemma alloc_record_deref:
  "deref (snd (alloc_record h d)) (fst (alloc_record h d)) = Some d"
proof -
  obtain ps h1 where a: "alloc_items h d = (ps, h1)" by (cases "alloc_items h d") auto
  from alloc_items_read[OF a] have rp: "read_props h1 ps = Some d" by simp
  have "read_props (h1 @ [RecordObject ps False]) ps = Some d"
    using read_props_cong[of ps "h1 @ [RecordObject ps False]" h1] read_props_Some_bound[OF rp] rp
    by (simp add: item_at_append)
  then show ?thesis by (simp add: alloc_record_def a alloc_def deref_def)
qed

lemma deref_alloc_empty [simp]:
  "deref (snd (alloc h (RecordObject [] False))) (fst (alloc h (RecordObject [] False))) = Some []"
  by (simp add: alloc_def deref_def)

lemma getAllData_ref_refines:
  assumes st: "storage s = st"
      and dirty: "dirty = None \<longrightarrow> dirtyData s = None"
                 "\<forall>r. dirty = Some r \<longrightarrow> dirtyData s \<noteq> None \<and> deref h r = dirtyData s"
  shows "deref (snd (fst (getAllData_ref cfg st dirty h))) (fst (fst (getAllData_ref cfg st dirty h))) =
           Some (fst (getAllData cfg s)) \<and>
         snd (getAllData_ref cfg st dirty h) = storage (snd (getAllData cfg s)) \<and>
         deref (snd (fst (getAllData_core_ref cfg st dirty h))) (fst (fst (getAllData_core_ref cfg st dirty h))) =
           Some (fst (getAllData cfg s)) \<and>
         snd (getAllData_core_ref cfg st dirty h) = storage (snd (getAllData cfg s))"
proof (cases "st = None")
  case True
  then show ?thesis using st by (simp add: getAllData_ref_def getAllData_core_ref_def getAllData_def)
next
  case False
  show ?thesis
  proof (cases dirty)
    case (Some r)
    with dirty obtain d where d: "dirtyData s = Some d" "deref h r = Some d" by auto
    have "deref (snd (fst (getAllData_ref cfg st (Some r) h))) (fst (fst (getAllData_ref cfg st (Some r) h))) = Some d"
      by (simp add: getAllData_ref_dirty[OF False] deref_spread(1)[OF d(2)])
    moreover have "deref (snd (fst (getAllData_core_ref cfg st (Some r) h)))
        (fst (fst (getAllData_core_ref cfg st (Some r) h))) = Some d"
      by (simp add: getAllData_core_ref_dirty[OF False] deref_frozen[OF d(2)])
    moreover have "getAllData cfg s = (d, s)" using False st d(1) by (auto simp: getAllData_def)
    moreover have "snd (getAllData_ref cfg st (Some r) h) = st" using False by (auto simp: getAllData_ref_def)
    moreover have "snd (getAllData_core_ref cfg st (Some r) h) = st"
      using False by (auto simp: getAllData_core_ref_def)
    ultimately show ?thesis using Some st by simp
  next
    case None
    with dirty have nd: "dirtyData s = None" by simp
    show ?thesis
      using False st nd None
      by (auto simp: getAllData_ref_def getAllData_core_ref_def getAllData_def alloc_record_deref
          split: option.splits)
  qed
qed

end
